theory Spec2Isabelle
  imports Main "HOL-Library.Sublist"
begin

section \<open>Python strings and the library calls the program makes\<close>

text \<open>
  A Python \<open>str\<close> is a sequence of Unicode code points; \<open>len\<close>, slicing and indexing
  count code points. A string is therefore a list of code points, and \<open>ascii\<close> turns a
  literal into one.
\<close>

type_synonym pystr = "nat list"

definition ascii :: "string \<Rightarrow> pystr" where
  "ascii s = map of_char s"

text \<open>
  \<open>str.isspace\<close>, which decides what \<open>str.strip()\<close> removes: the 29 white-space code
  points of CPython (tab to carriage return, the four separators 0x1C..0x1F, space, NEL,
  no-break space and the Unicode space separators).
\<close>

definition isspace :: "nat \<Rightarrow> bool" where
  "isspace c = (c \<in> set [0x09, 0x0A, 0x0B, 0x0C, 0x0D, 0x1C, 0x1D, 0x1E, 0x1F, 0x20, 0x85, 0xA0,
     0x1680, 0x2000, 0x2001, 0x2002, 0x2003, 0x2004, 0x2005, 0x2006, 0x2007, 0x2008, 0x2009,
     0x200A, 0x2028, 0x2029, 0x202F, 0x205F, 0x3000])"

text \<open>\<open>s.strip()\<close> and \<open>s.strip(chars)\<close>: drop from the left, then from the right.\<close>

definition strip_where :: "(nat \<Rightarrow> bool) \<Rightarrow> pystr \<Rightarrow> pystr" where
  "strip_where P s = rev (dropWhile P (rev (dropWhile P s)))"

definition py_strip :: "pystr \<Rightarrow> pystr" where
  "py_strip s = strip_where isspace s"

definition strip_chars :: "pystr \<Rightarrow> pystr \<Rightarrow> pystr" where
  "strip_chars chars s = strip_where (\<lambda>c. c \<in> set chars) s"

text \<open>\<open>s.replace(old, new)\<close> for one-character \<open>old\<close> and \<open>new\<close>.\<close>

definition replace_char :: "nat \<Rightarrow> nat \<Rightarrow> pystr \<Rightarrow> pystr" where
  "replace_char old new s = map (\<lambda>c. if c = old then new else c) s"

text \<open>
  The character class \<open>[a-zA-Z0-9_&-]\<close> (the final \<open>-\<close> is a literal), and
  \<open>re.sub(r"[^a-zA-Z0-9_&-]", "_", text)\<close>: the pattern matches exactly one character, so
  every character outside the class is replaced on its own.
\<close>

definition valid_char :: "nat \<Rightarrow> bool" where
  "valid_char c = ((97 \<le> c \<and> c \<le> 122) \<or> (65 \<le> c \<and> c \<le> 90) \<or> (48 \<le> c \<and> c \<le> 57)
     \<or> c = 95 \<or> c = 38 \<or> c = 45)"

definition re_sub_invalid :: "pystr \<Rightarrow> pystr" where
  "re_sub_invalid s = map (\<lambda>c. if valid_char c then c else 95) s"

text \<open>
  \<open>re.sub(r"_+", "_", text)\<close>: the scan copies a character that is not an underscore; at
  an underscore the greedy \<open>_+\<close> consumes the whole run and one underscore is written.
\<close>

function sub_underscore_runs :: "pystr \<Rightarrow> pystr" where
  "sub_underscore_runs [] = []"
| "sub_underscore_runs (c # cs) =
     (if c = 95 then 95 # sub_underscore_runs (dropWhile (\<lambda>d. d = 95) cs)
      else c # sub_underscore_runs cs)"
  by pat_completeness auto
termination
  by (relation "measure length") (auto simp: length_dropWhile_le le_imp_less_Suc)

text \<open>\<open>sub in s\<close> on strings: \<open>sub\<close> starts at some position of \<open>s\<close>.\<close>

fun py_in :: "pystr \<Rightarrow> pystr \<Rightarrow> bool" where
  "py_in sub [] = (sub = [])"
| "py_in sub (c # cs) = (prefix sub (c # cs) \<or> py_in sub cs)"

text \<open>\<open>s.split(sep)\<close> for a one-character separator: \<open>cur\<close> is the field being read.\<close>

fun split_acc :: "nat \<Rightarrow> pystr \<Rightarrow> pystr \<Rightarrow> pystr list" where
  "split_acc sep cur [] = [cur]"
| "split_acc sep cur (c # cs) =
     (if c = sep then cur # split_acc sep [] cs else split_acc sep (cur @ [c]) cs)"

definition py_split :: "nat \<Rightarrow> pystr \<Rightarrow> pystr list" where
  "py_split sep s = split_acc sep [] s"

text \<open>
  Two tables of the interpreter's Unicode database are far too large to write out and
  differ between Python versions, so they are a parameter: what \<open>str.lower\<close> returns on a
  string that has a code point from 128 on, and which code points from 128 on are
  alphanumeric (\<open>str.isalnum\<close>, the \<open>\w\<close> of a \<open>str\<close> pattern). On ASCII both are fixed
  and written out below, and every theorem holds for every database.
\<close>

record ucd =
  lower_nonascii :: "pystr \<Rightarrow> pystr"
  isalnum_nonascii :: "nat \<Rightarrow> bool"

definition ascii_lower :: "nat \<Rightarrow> nat" where
  "ascii_lower c = (if 65 \<le> c \<and> c \<le> 90 then c + 32 else c)"

definition py_lower :: "ucd \<Rightarrow> pystr \<Rightarrow> pystr" where
  "py_lower U s = (if list_all (\<lambda>c. c < 128) s then map ascii_lower s else lower_nonascii U s)"

text \<open>\<open>\w\<close>: alphanumeric or underscore.\<close>

definition is_word :: "ucd \<Rightarrow> nat \<Rightarrow> bool" where
  "is_word U c =
     (if c < 128 then (48 \<le> c \<and> c \<le> 57) \<or> (65 \<le> c \<and> c \<le> 90) \<or> (97 \<le> c \<and> c \<le> 122) \<or> c = 95
      else isalnum_nonascii U c)"

text \<open>
  \<open>\b\<close> at position \<open>p\<close> of \<open>s\<close>: never in the empty string; otherwise the character
  before \<open>p\<close> and the character at \<open>p\<close> differ in being word characters, a position
  outside the string counting as a non-word character.
\<close>

definition at_boundary :: "ucd \<Rightarrow> pystr \<Rightarrow> nat \<Rightarrow> bool" where
  "at_boundary U s p =
     (s \<noteq> [] \<and>
      (let that = (0 < p \<and> p \<le> length s \<and> is_word U (s ! (p - 1)));
           this = (p < length s \<and> is_word U (s ! p))
       in this \<noteq> that))"

text \<open>
  A literal of the pattern under \<open>re.IGNORECASE\<close>: a character matches the lower-case
  pattern letter when its simple lower-case mapping is that letter. For the letters of
  \<open>by\<close> and \<open>from\<close> only the ASCII letter and its capital do.
\<close>

definition ignorecase_eq :: "nat \<Rightarrow> nat \<Rightarrow> bool" where
  "ignorecase_eq pat c = (c < 128 \<and> ascii_lower c = pat)"

definition literal_at :: "pystr \<Rightarrow> pystr \<Rightarrow> nat \<Rightarrow> bool" where
  "literal_at w s p =
     (p + length w \<le> length s \<and> list_all2 ignorecase_eq w (take (length w) (drop p s)))"

definition word_at :: "ucd \<Rightarrow> pystr \<Rightarrow> pystr \<Rightarrow> nat \<Rightarrow> bool" where
  "word_at U w s p = (at_boundary U s p \<and> literal_at w s p \<and> at_boundary U s (p + length w))"

text \<open>
  \<open>re.search(r'\bby\b|\bfrom\b', line, re.IGNORECASE)\<close> tries every start position
  from 0 to \<open>len(line)\<close> and both alternatives there; a match object is always true.
\<close>

definition re_search_by_from :: "ucd \<Rightarrow> pystr \<Rightarrow> bool" where
  "re_search_by_from U line =
     list_ex (\<lambda>p. word_at U (ascii ''by'') line p \<or> word_at U (ascii ''from'') line p)
       [0..<Suc (length line)]"

text \<open>
  \<open>xs[i]\<close>: a negative index counts from the end, and an index outside the list raises
  \<open>IndexError\<close>.
\<close>

datatype py_error = IndexError

definition getitem :: "'a list \<Rightarrow> int \<Rightarrow> py_error + 'a" where
  "getitem xs i =
     (if 0 \<le> i \<and> i < int (length xs) then Inr (xs ! nat i)
      else if i < 0 \<and> - int (length xs) \<le> i then Inr (xs ! nat (int (length xs) + i))
      else Inl IndexError)"


section \<open>\<open>main.py\<close>\<close>

subsection \<open>\<open>clean_text\<close>\<close>

definition clean_text :: "pystr \<Rightarrow> pystr" where
  "clean_text text =
     (let text = replace_char 10 32 (py_strip text);
          text = re_sub_invalid text;
          text = sub_underscore_runs text;
          text = strip_chars (ascii ''_'') text
      in take 80 text)"

text \<open>The value of \<open>text\<close> just before the final slice \<open>text[:80]\<close>.\<close>

definition before_cut :: "pystr \<Rightarrow> pystr" where
  "before_cut s = strip_chars (ascii ''_'')
     (sub_underscore_runs (re_sub_invalid (replace_char 10 32 (py_strip s))))"

subsection \<open>\<open>clean_text\<close> in the words of the specification\<close>

text \<open>
  The six steps as the specification words them, for comparison with \<open>clean_text\<close>:
  stripping takes away a leading run and then as many characters as the trailing run has;
  the permitted set is listed; a run of underscores is collapsed by dropping every
  underscore that is followed by another one.
\<close>

definition spec_strip :: "(nat \<Rightarrow> bool) \<Rightarrow> pystr \<Rightarrow> pystr" where
  "spec_strip P s =
     (let s' = dropWhile P s in take (length s' - length (takeWhile P (rev s'))) s')"

definition spec_allowed :: "nat \<Rightarrow> bool" where
  "spec_allowed c = (c \<in> set ([of_char CHR ''a''..<Suc (of_char CHR ''z'')]
     @ [of_char CHR ''A''..<Suc (of_char CHR ''Z'')]
     @ [of_char CHR ''0''..<Suc (of_char CHR ''9'')] @ ascii ''_&-''))"

fun spec_collapse :: "pystr \<Rightarrow> pystr" where
  "spec_collapse (a # b # r) =
     (if a = 95 \<and> b = 95 then spec_collapse (b # r) else a # spec_collapse (b # r))"
| "spec_collapse s = s"

definition clean_text_spec :: "pystr \<Rightarrow> pystr" where
  "clean_text_spec s =
     take 80
       (spec_strip (\<lambda>c. c = 95)
         (spec_collapse
           (map (\<lambda>c. if spec_allowed c then c else 95)
             (map (\<lambda>c. if c = 10 then 32 else c)
               (spec_strip isspace s)))))"

subsection \<open>\<open>extract_product_name\<close>\<close>

definition product_keywords :: "pystr list" where
  "product_keywords = map ascii [''oil'', ''serum'', ''cream'', ''foundation'', ''lotion'', ''gel'',
     ''moisturizer'', ''cleanser'', ''toner'', ''essence'', ''mask'',
     ''balm'', ''primer'', ''powder'', ''lipstick'', ''mascara'']"

definition exclude_phrases :: "pystr list" where
  "exclude_phrases = map ascii [''was evaluated'', ''tested'', ''description'', ''ingredients'',
     ''how to use'', ''directions'', ''warning'', ''caution'']"

definition trigger_phrases :: "pystr list" where
  "trigger_phrases = map ascii [''was evaluated'', ''tested for'', ''test results'']"

definition headers :: "pystr list" where
  "headers = map ascii [''report'', ''test'', ''analysis'', ''certificate'']"

text \<open>\<open>lines = [line.strip() for line in text.split('\n') if line.strip()]\<close>\<close>

definition text_lines :: "pystr \<Rightarrow> pystr list" where
  "text_lines text = [py_strip line. line \<leftarrow> py_split 10 text, py_strip line \<noteq> []]"

text \<open>Strategy 1, the loop over \<open>lines\<close>; \<open>None\<close> when the loop ends without a return.\<close>

fun keyword_loop :: "ucd \<Rightarrow> pystr list \<Rightarrow> pystr option" where
  "keyword_loop U [] = None"
| "keyword_loop U (line # rest) =
     (let line_lower = py_lower U line in
      if list_ex (\<lambda>keyword. py_in keyword line_lower) product_keywords then
        if \<not> list_ex (\<lambda>phrase. py_in phrase line_lower) exclude_phrases then
          if 5 < length line \<and> length line < 100 then Some line
          else keyword_loop U rest
        else keyword_loop U rest
      else keyword_loop U rest)"

text \<open>
  Strategy 2, the loop over \<open>enumerate(lines)\<close>; the read of \<open>lines[i-1]\<close> can raise.
\<close>

fun trigger_loop :: "ucd \<Rightarrow> pystr list \<Rightarrow> (nat \<times> pystr) list \<Rightarrow> py_error + pystr option" where
  "trigger_loop U lines [] = Inr None"
| "trigger_loop U lines ((i, line) # rest) =
     (let line_lower = py_lower U line in
      if list_ex (\<lambda>phrase. py_in phrase line_lower) trigger_phrases \<and> i > 0 then
        (case getitem lines (int i - 1) of
           Inl e \<Rightarrow> Inl e
         | Inr prev_line \<Rightarrow>
             if length prev_line > 5 then Inr (Some prev_line)
             else trigger_loop U lines rest)
      else trigger_loop U lines rest)"

text \<open>Strategy 3.\<close>

fun attribution_loop :: "ucd \<Rightarrow> pystr list \<Rightarrow> pystr option" where
  "attribution_loop U [] = None"
| "attribution_loop U (line # rest) =
     (if re_search_by_from U line then
        if length line > 5 \<and> length line < 100 then Some line
        else attribution_loop U rest
      else attribution_loop U rest)"

text \<open>Strategy 4.\<close>

fun fallback_loop :: "ucd \<Rightarrow> pystr list \<Rightarrow> pystr option" where
  "fallback_loop U [] = None"
| "fallback_loop U (line # rest) =
     (if length line > 10 \<and> length line < 100 then
        if \<not> list_ex (\<lambda>header. py_in header (py_lower U line)) headers then Some line
        else fallback_loop U rest
      else fallback_loop U rest)"

text \<open>
  The function: each loop returns from the function at its first hit, and the next loop
  runs only when the one before it has ended. \<open>Inr None\<close> is Python's \<open>None\<close>, \<open>Inl\<close> an
  exception leaving the function.
\<close>

definition extract_product_name :: "ucd \<Rightarrow> pystr \<Rightarrow> py_error + pystr option" where
  "extract_product_name U text =
     (let lines = text_lines text in
      case keyword_loop U lines of
        Some line \<Rightarrow> Inr (Some line)
      | None \<Rightarrow>
          (case trigger_loop U lines (enumerate 0 lines) of
             Inl e \<Rightarrow> Inl e
           | Inr (Some prev_line) \<Rightarrow> Inr (Some prev_line)
           | Inr None \<Rightarrow>
               (case attribution_loop U lines of
                  Some line \<Rightarrow> Inr (Some line)
                | None \<Rightarrow>
                    (case fallback_loop U lines of
                       Some line \<Rightarrow> Inr (Some line)
                     | None \<Rightarrow> Inr None))))"


subsection \<open>The strategies in the words of the specification\<close>

text \<open>
  A line contains one of a list of phrases; the condition each strategy puts on a line;
  a word standing alone in a line, in any letter case, with no word character next to it.
\<close>

definition contains_any :: "pystr list \<Rightarrow> pystr \<Rightarrow> bool" where
  "contains_any phrases s = (\<exists>p \<in> set phrases. sublist p s)"

definition keyword_match :: "ucd \<Rightarrow> pystr \<Rightarrow> bool" where
  "keyword_match U line =
     (contains_any product_keywords (py_lower U line)
      \<and> \<not> contains_any exclude_phrases (py_lower U line)
      \<and> 5 < length line \<and> length line < 100)"

definition trigger_pair :: "ucd \<Rightarrow> pystr list \<Rightarrow> nat \<Rightarrow> bool" where
  "trigger_pair U lines i =
     (0 < i \<and> i < length lines
      \<and> contains_any trigger_phrases (py_lower U (lines ! i))
      \<and> 5 < length (lines ! (i - 1)))"

definition whole_word :: "ucd \<Rightarrow> pystr \<Rightarrow> pystr \<Rightarrow> bool" where
  "whole_word U w line =
     (\<exists>pre mid post. line = pre @ mid @ post
        \<and> list_all2 ignorecase_eq w mid
        \<and> (pre = [] \<or> \<not> is_word U (last pre))
        \<and> (post = [] \<or> \<not> is_word U (hd post)))"

definition attribution_match :: "ucd \<Rightarrow> pystr \<Rightarrow> bool" where
  "attribution_match U line =
     ((whole_word U (ascii ''by'') line \<or> whole_word U (ascii ''from'') line)
      \<and> 5 < length line \<and> length line < 100)"

definition fallback_match :: "ucd \<Rightarrow> pystr \<Rightarrow> bool" where
  "fallback_match U line =
     (10 < length line \<and> length line < 100 \<and> \<not> contains_any headers (py_lower U line))"


section \<open>\<open>app.py\<close>\<close>

text \<open>The browser front end carries its own copy of both functions.\<close>

definition app_clean_text :: "pystr \<Rightarrow> pystr" where
  "app_clean_text text =
     (let text = replace_char 10 32 (py_strip text);
          text = re_sub_invalid text;
          text = sub_underscore_runs text;
          text = strip_chars (ascii ''_'') text
      in take 80 text)"

fun app_keyword_loop :: "ucd \<Rightarrow> pystr list \<Rightarrow> pystr option" where
  "app_keyword_loop U [] = None"
| "app_keyword_loop U (line # rest) =
     (let line_lower = py_lower U line in
      if list_ex (\<lambda>keyword. py_in keyword line_lower)
           (map ascii [''oil'', ''serum'', ''cream'', ''foundation'', ''lotion'', ''gel'',
              ''moisturizer'', ''cleanser'', ''toner'', ''essence'', ''mask'',
              ''balm'', ''primer'', ''powder'', ''lipstick'', ''mascara'']) then
        if \<not> list_ex (\<lambda>phrase. py_in phrase line_lower)
               (map ascii [''was evaluated'', ''tested'', ''description'', ''ingredients'',
                  ''how to use'', ''directions'', ''warning'', ''caution'']) then
          if 5 < length line \<and> length line < 100 then Some line
          else app_keyword_loop U rest
        else app_keyword_loop U rest
      else app_keyword_loop U rest)"

fun app_trigger_loop :: "ucd \<Rightarrow> pystr list \<Rightarrow> (nat \<times> pystr) list \<Rightarrow> py_error + pystr option" where
  "app_trigger_loop U lines [] = Inr None"
| "app_trigger_loop U lines ((i, line) # rest) =
     (let line_lower = py_lower U line in
      if list_ex (\<lambda>phrase. py_in phrase line_lower)
           (map ascii [''was evaluated'', ''tested for'', ''test results'']) \<and> i > 0 then
        (case getitem lines (int i - 1) of
           Inl e \<Rightarrow> Inl e
         | Inr prev_line \<Rightarrow>
             if length prev_line > 5 then Inr (Some prev_line)
             else app_trigger_loop U lines rest)
      else app_trigger_loop U lines rest)"

fun app_attribution_loop :: "ucd \<Rightarrow> pystr list \<Rightarrow> pystr option" where
  "app_attribution_loop U [] = None"
| "app_attribution_loop U (line # rest) =
     (if re_search_by_from U line then
        if length line > 5 \<and> length line < 100 then Some line
        else app_attribution_loop U rest
      else app_attribution_loop U rest)"

fun app_fallback_loop :: "ucd \<Rightarrow> pystr list \<Rightarrow> pystr option" where
  "app_fallback_loop U [] = None"
| "app_fallback_loop U (line # rest) =
     (if length line > 10 \<and> length line < 100 then
        if \<not> list_ex (\<lambda>header. py_in header (py_lower U line))
               (map ascii [''report'', ''test'', ''analysis'', ''certificate'']) then Some line
        else app_fallback_loop U rest
      else app_fallback_loop U rest)"

definition app_extract_product_name :: "ucd \<Rightarrow> pystr \<Rightarrow> py_error + pystr option" where
  "app_extract_product_name U text =
     (let lines = [py_strip line. line \<leftarrow> py_split 10 text, py_strip line \<noteq> []] in
      case app_keyword_loop U lines of
        Some line \<Rightarrow> Inr (Some line)
      | None \<Rightarrow>
          (case app_trigger_loop U lines (enumerate 0 lines) of
             Inl e \<Rightarrow> Inl e
           | Inr (Some prev_line) \<Rightarrow> Inr (Some prev_line)
           | Inr None \<Rightarrow>
               (case app_attribution_loop U lines of
                  Some line \<Rightarrow> Inr (Some line)
                | None \<Rightarrow>
                    (case app_fallback_loop U lines of
                       Some line \<Rightarrow> Inr (Some line)
                     | None \<Rightarrow> Inr None))))"


section \<open>Properties of \<open>clean_text\<close>\<close>

lemma strip_where_Nil [simp]: "strip_where P [] = []"
  by (simp add: strip_where_def)

lemma strip_where_id:
  assumes "s \<noteq> []" "\<not> P (hd s)" "\<not> P (last s)"
  shows "strip_where P s = s"
proof -
  from assms have "dropWhile P s = s" by (cases s) auto
  moreover from assms have "dropWhile P (rev s) = rev s"
    by (cases "rev s") (auto simp: last_rev hd_rev)
  ultimately show ?thesis by (simp add: strip_where_def)
qed

lemma strip_where_prefix_suffix:
  "\<exists>t. prefix (strip_where P s) t \<and> suffix t s"
proof -
  have "suffix (dropWhile P s) s" by (rule suffix_dropWhile)
  moreover have "suffix (dropWhile P (rev (dropWhile P s))) (rev (dropWhile P s))"
    by (rule suffix_dropWhile)
  then have "prefix (strip_where P s) (dropWhile P s)"
    unfolding strip_where_def by (metis rev_rev_ident suffix_to_prefix)
  ultimately show ?thesis by blast
qed

lemma sublist_strip_where: "sublist (strip_where P s) s"
  using strip_where_prefix_suffix [of P s] by (auto simp: sublist_altdef')

lemma set_strip_where: "set (strip_where P s) \<subseteq> set s"
  using sublist_strip_where [of P s] by (rule set_mono_sublist)

lemma length_strip_where: "length (strip_where P s) \<le> length s"
  using sublist_strip_where [of P s] by (rule sublist_length_le)

lemma strip_where_no_lead: "strip_where P s = c # t \<Longrightarrow> \<not> P c"
proof
  assume eq: "strip_where P s = c # t" and "P c"
  let ?d = "dropWhile P s"
  from eq have d: "rev (dropWhile P (rev ?d)) = c # t" by (simp add: strip_where_def)
  then have "dropWhile P (rev ?d) \<noteq> []" by auto
  have "prefix (rev (dropWhile P (rev ?d))) ?d"
    by (metis rev_rev_ident suffix_dropWhile suffix_to_prefix)
  with d obtain zs where "?d = c # t @ zs" by (auto simp: prefix_def)
  then have "?d \<noteq> [] \<and> hd ?d = c" by (metis list.distinct(1) list.sel(1))
  with \<open>P c\<close> show False by (metis hd_dropWhile)
qed

lemma strip_where_no_trail: "strip_where P s = t @ [c] \<Longrightarrow> \<not> P c"
proof
  assume eq: "strip_where P s = t @ [c]" and "P c"
  let ?e = "dropWhile P (rev (dropWhile P s))"
  from eq have "rev ?e = t @ [c]" by (simp add: strip_where_def)
  then have "?e = c # rev t" by (metis rev.simps(2) rev_rev_ident rev_append rev_singleton_conv append_Cons append_Nil)
  then have "?e \<noteq> [] \<and> hd ?e = c" by simp
  with \<open>P c\<close> show False by (metis hd_dropWhile)
qed

lemma sub_underscore_runs_hd:
  "sub_underscore_runs s = a # r \<Longrightarrow> s \<noteq> [] \<and> hd s = a"
  by (cases s) (auto split: if_splits)

lemma set_sub_underscore_runs: "set (sub_underscore_runs s) \<subseteq> set s"
proof (induction s rule: sub_underscore_runs.induct)
  case 1 show ?case by simp
next
  case (2 c cs)
  show ?case
  proof (cases "c = 95")
    case True
    with 2 have "set (sub_underscore_runs (dropWhile (\<lambda>d. d = 95) cs)) \<subseteq> set cs"
      using set_dropWhileD by fastforce
    with True show ?thesis by auto
  next
    case False with 2 show ?thesis by auto
  qed
qed

lemma length_sub_underscore_runs: "length (sub_underscore_runs s) \<le> length s"
proof (induction s rule: sub_underscore_runs.induct)
  case 1 show ?case by simp
next
  case (2 c cs)
  show ?case
  proof (cases "c = 95")
    case True
    with 2 have "length (sub_underscore_runs (dropWhile (\<lambda>d. d = 95) cs)) \<le> length cs"
      using length_dropWhile_le [of "\<lambda>d. d = 95" cs] by fastforce
    with True show ?thesis by simp
  next
    case False with 2 show ?thesis by simp
  qed
qed

lemma sub_underscore_runs_no_double: "\<not> sublist [95, 95] (sub_underscore_runs s)"
proof (induction s rule: sub_underscore_runs.induct)
  case 1 show ?case by simp
next
  case (2 c cs)
  show ?case
  proof (cases "c = 95")
    case True
    let ?r = "sub_underscore_runs (dropWhile (\<lambda>d. d = 95) cs)"
    from True 2 have ih: "\<not> sublist [95, 95] ?r" by simp
    have "\<not> prefix [95] ?r"
    proof
      assume "prefix [95] ?r"
      then obtain r where "?r = 95 # r" by (auto simp: prefix_def)
      then have "dropWhile (\<lambda>d. d = 95) cs \<noteq> [] \<and> hd (dropWhile (\<lambda>d. d = 95) cs) = 95"
        by (rule sub_underscore_runs_hd)
      then show False using hd_dropWhile [of "\<lambda>d. d = 95" cs] by auto
    qed
    with ih True show ?thesis by (auto simp: sublist_Cons_right)
  next
    case False
    with 2 have "\<not> sublist [95, 95] (sub_underscore_runs cs)" by simp
    with False show ?thesis by (auto simp: sublist_Cons_right)
  qed
qed


lemma sublist_trans': "sublist xs ys \<Longrightarrow> sublist ys zs \<Longrightarrow> sublist xs zs"
  by (rule sublist_order.order_trans)


lemma clean_text_take: "clean_text s = take 80 (before_cut s)"
  by (simp add: clean_text_def before_cut_def)

lemma valid_before_cut: "c \<in> set (before_cut s) \<Longrightarrow> valid_char c"
proof -
  assume "c \<in> set (before_cut s)"
  then have "c \<in> set (sub_underscore_runs (re_sub_invalid (replace_char 10 32 (py_strip s))))"
    unfolding before_cut_def strip_chars_def using set_strip_where by blast
  then have "c \<in> set (re_sub_invalid (replace_char 10 32 (py_strip s)))"
    using set_sub_underscore_runs by blast
  then show ?thesis by (auto simp: re_sub_invalid_def valid_char_def)
qed

lemma before_cut_no_double: "\<not> sublist [95, 95] (before_cut s)"
proof
  assume "sublist [95, 95] (before_cut s)"
  moreover have "sublist (before_cut s)
      (sub_underscore_runs (re_sub_invalid (replace_char 10 32 (py_strip s))))"
    unfolding before_cut_def strip_chars_def by (rule sublist_strip_where)
  ultimately have "sublist [95, 95]
      (sub_underscore_runs (re_sub_invalid (replace_char 10 32 (py_strip s))))"
    by (rule sublist_trans')
  then show False by (simp add: sub_underscore_runs_no_double)
qed

lemma before_cut_no_lead: "before_cut s \<noteq> 95 # t"
proof
  assume "before_cut s = 95 # t"
  then have "\<not> (95 \<in> set (ascii ''_''))"
    unfolding before_cut_def strip_chars_def by (rule strip_where_no_lead)
  then show False by (simp add: ascii_def)
qed

lemma before_cut_no_trail: "before_cut s \<noteq> t @ [95]"
proof
  assume "before_cut s = t @ [95]"
  then have "\<not> (95 \<in> set (ascii ''_''))"
    unfolding before_cut_def strip_chars_def by (rule strip_where_no_trail)
  then show False by (simp add: ascii_def)
qed

lemma length_before_cut: "length (before_cut s) \<le> length s"
proof -
  have "length (before_cut s)
      \<le> length (sub_underscore_runs (re_sub_invalid (replace_char 10 32 (py_strip s))))"
    unfolding before_cut_def strip_chars_def by (rule length_strip_where)
  also have "\<dots> \<le> length (re_sub_invalid (replace_char 10 32 (py_strip s)))"
    by (rule length_sub_underscore_runs)
  also have "\<dots> = length (py_strip s)"
    by (simp add: re_sub_invalid_def replace_char_def)
  also have "\<dots> \<le> length s"
    unfolding py_strip_def by (rule length_strip_where)
  finally show ?thesis .
qed

lemma sub_underscore_runs_append:
  "95 \<notin> set xs \<Longrightarrow> sub_underscore_runs (xs @ ys) = xs @ sub_underscore_runs ys"
  by (induction xs) auto

lemma suffix_long_output:
  "suffix (ascii ''_'') (ascii (replicate 79 CHR ''a'' @ ''_''))"
  by (simp add: ascii_def suffix_def)

lemma length_long_output: "length (ascii (replicate 79 CHR ''a'' @ ''_'')) = 80"
  by (simp add: ascii_def)

lemma clean_text_long_input:
  "clean_text (ascii (replicate 79 CHR ''a'' @ '' b'')) = ascii (replicate 79 CHR ''a'' @ ''_'')"
proof -
  let ?x = "replicate 79 (97::nat) @ [32, 98]"
  let ?y = "replicate 79 (97::nat) @ [95, 98]"
  have x: "ascii (replicate 79 CHR ''a'' @ '' b'') = ?x" by (simp add: ascii_def)
  have "py_strip ?x = ?x"
    unfolding py_strip_def by (rule strip_where_id) (simp_all add: isspace_def)
  moreover have "replace_char 10 32 ?x = ?x" by (simp add: replace_char_def)
  moreover have "re_sub_invalid ?x = ?y" by (simp add: re_sub_invalid_def valid_char_def)
  moreover have "sub_underscore_runs ?y = ?y" by (simp add: sub_underscore_runs_append)
  moreover have "strip_chars (ascii ''_'') ?y = ?y"
    unfolding strip_chars_def by (rule strip_where_id) (simp_all add: ascii_def)
  moreover have "take 80 ?y = replicate 79 97 @ [95]" by simp
  ultimately have "clean_text ?x = replicate 79 97 @ [95]" by (simp add: clean_text_def)
  then show ?thesis by (simp add: x ascii_def)
qed

text \<open>
  C1, as stated, fails: the underscores are stripped before the slice, so the slice can
  end on one. The input is 79 times \<open>a\<close>, a space and \<open>b\<close>.
\<close>

theorem clean_text_trailing_underscore_counterexample:
  "clean_text (ascii (replicate 79 CHR ''a'' @ '' b'')) = ascii (replicate 79 CHR ''a'' @ ''_'')
   \<and> suffix (ascii ''_'') (clean_text (ascii (replicate 79 CHR ''a'' @ '' b'')))"
  unfolding clean_text_long_input using suffix_long_output by simp

text \<open>
  C1, amended: for every string, \<open>clean_text\<close> returns at most 80 characters, all of
  them in \<open>[a-zA-Z0-9_&-]\<close>, with no two consecutive underscores and no leading
  underscore; the result ends with an underscore only when it is exactly 80 characters
  long, that is, when the slice cut it there.
\<close>

theorem clean_text_shape:
  "length (clean_text s) \<le> 80
   \<and> list_all valid_char (clean_text s)
   \<and> \<not> sublist (ascii ''__'') (clean_text s)
   \<and> \<not> prefix (ascii ''_'') (clean_text s)
   \<and> (suffix (ascii ''_'') (clean_text s) \<longrightarrow> length (clean_text s) = 80)"
proof (intro conjI impI)
  show "length (clean_text s) \<le> 80" by (simp add: clean_text_take)
  show "list_all valid_char (clean_text s)"
    unfolding list_all_iff clean_text_take using valid_before_cut in_set_takeD by fast
  show "\<not> sublist (ascii ''__'') (clean_text s)"
  proof
    assume "sublist (ascii ''__'') (clean_text s)"
    then have "sublist [95, 95] (take 80 (before_cut s))"
      by (simp add: ascii_def clean_text_take)
    moreover have "sublist (take 80 (before_cut s)) (before_cut s)"
      by (simp add: take_is_prefix)
    ultimately have "sublist [95, 95] (before_cut s)" by (rule sublist_trans')
    then show False by (simp add: before_cut_no_double)
  qed
  show "\<not> prefix (ascii ''_'') (clean_text s)"
  proof
    assume "prefix (ascii ''_'') (clean_text s)"
    then obtain r where "take 80 (before_cut s) = 95 # r"
      by (auto simp: ascii_def clean_text_take prefix_def)
    then have "before_cut s = 95 # (r @ drop 80 (before_cut s))"
      by (metis append_Cons append_take_drop_id)
    then show False by (simp add: before_cut_no_lead)
  qed
  show "length (clean_text s) = 80" if "suffix (ascii ''_'') (clean_text s)"
  proof (rule ccontr)
    assume "length (clean_text s) \<noteq> 80"
    then have "take 80 (before_cut s) = before_cut s"
      by (simp add: clean_text_take min_def split: if_splits)
    with that obtain r where "before_cut s = r @ [95]"
      by (auto simp: ascii_def clean_text_take suffix_def)
    then show False by (simp add: before_cut_no_trail)
  qed
qed

theorem clean_text_shape_witness:
  "suffix (ascii ''_'') (clean_text (ascii (replicate 79 CHR ''a'' @ '' b'')))
   \<and> length (clean_text (ascii (replicate 79 CHR ''a'' @ '' b''))) = 80"
proof -
  have "suffix (ascii ''_'') (clean_text (ascii (replicate 79 CHR ''a'' @ '' b'')))"
    unfolding clean_text_long_input by (rule suffix_long_output)
  with clean_text_shape [of "ascii (replicate 79 CHR ''a'' @ '' b'')"] show ?thesis by blast
qed

lemma valid_not_space: "valid_char c \<Longrightarrow> \<not> isspace c"
  by (auto simp: valid_char_def isspace_def)

lemma sub_underscore_runs_id: "\<not> sublist [95, 95] r \<Longrightarrow> sub_underscore_runs r = r"
proof (induction r rule: sub_underscore_runs.induct)
  case 1 show ?case by simp
next
  case (2 c cs)
  from "2.prems" have tail: "\<not> sublist [95, 95] cs" by (auto simp: sublist_Cons_right)
  show ?case
  proof (cases "c = 95")
    case True
    with "2.prems" have "\<not> prefix [95] cs" by (auto simp: sublist_Cons_right)
    then have "dropWhile (\<lambda>d. d = 95) cs = cs" by (cases cs) auto
    with True tail "2.IH"(1) show ?thesis by simp
  next
    case False
    with tail "2.IH"(2) show ?thesis by simp
  qed
qed

lemma clean_text_fixed:
  assumes v: "list_all valid_char r" and d: "\<not> sublist [95, 95] r"
    and p: "\<not> prefix [95] r" and s: "\<not> suffix [95] r" and l: "length r \<le> 80"
  shows "clean_text r = r"
proof (cases "r = []")
  case True
  then show ?thesis by (simp add: clean_text_def py_strip_def strip_chars_def replace_char_def re_sub_invalid_def)
next
  case False
  from v False have "valid_char (hd r)" "valid_char (last r)" by (auto simp: list_all_iff)
  then have "\<not> isspace (hd r)" "\<not> isspace (last r)" by (auto dest: valid_not_space)
  with False have 1: "py_strip r = r" unfolding py_strip_def by (rule strip_where_id)
  from v have "\<forall>c \<in> set r. c \<noteq> 10" by (auto simp: list_all_iff valid_char_def)
  then have 2: "replace_char 10 32 r = r" unfolding replace_char_def by (simp add: map_idI)
  from v have 3: "re_sub_invalid r = r"
    unfolding re_sub_invalid_def by (simp add: map_idI list_all_iff)
  from d have 4: "sub_underscore_runs r = r" by (rule sub_underscore_runs_id)
  from p False have "hd r \<noteq> 95" by (cases r) auto
  moreover from s False have "last r \<noteq> 95"
    by (metis append_butlast_last_id suffix_def)
  ultimately have 5: "strip_chars (ascii ''_'') r = r"
    unfolding strip_chars_def using False by (intro strip_where_id) (simp_all add: ascii_def)
  from l 1 2 3 4 5 show ?thesis by (simp add: clean_text_def)
qed

text \<open>
  C8: for every string of length at most 80, applying \<open>clean_text\<close> twice gives the
  same result as applying it once.
\<close>

theorem clean_text_idempotent:
  assumes "length s \<le> 80"
  shows "clean_text (clean_text s) = clean_text s"
proof -
  have len: "length (before_cut s) \<le> 80" using length_before_cut [of s] assms by simp
  then have eq: "clean_text s = before_cut s" by (simp add: clean_text_take)
  have "list_all valid_char (before_cut s)"
    unfolding list_all_iff using valid_before_cut by blast
  moreover have "\<not> sublist [95, 95] (before_cut s)" by (rule before_cut_no_double)
  moreover have "\<not> prefix [95] (before_cut s)"
    using before_cut_no_lead [of s] by (auto simp: prefix_def)
  moreover have "\<not> suffix [95] (before_cut s)"
    using before_cut_no_trail [of s] by (auto simp: suffix_def)
  ultimately have "clean_text (before_cut s) = before_cut s"
    using len by (rule clean_text_fixed)
  with eq show ?thesis by simp
qed

theorem clean_text_idempotent_witness:
  "length (ascii ''Radiant Glow Face Serum'') \<le> 80
   \<and> clean_text (clean_text (ascii ''Radiant Glow Face Serum''))
       = clean_text (ascii ''Radiant Glow Face Serum'')"
proof -
  have l: "length (ascii ''Radiant Glow Face Serum'') \<le> 80" by (simp add: ascii_def)
  with clean_text_idempotent [OF l] show ?thesis by blast
qed

lemma spec_strip_eq: "spec_strip P s = strip_where P s"
proof -
  have "rev (dropWhile P (rev t)) = take (length t - length (takeWhile P (rev t))) t" for t
    by (simp add: dropWhile_eq_drop rev_drop)
  then show ?thesis by (simp add: spec_strip_def strip_where_def Let_def)
qed

lemma spec_allowed_eq: "spec_allowed c = valid_char c"
  unfolding spec_allowed_def set_append set_upt
  by (auto simp: valid_char_def ascii_def)

lemma spec_collapse_eq: "spec_collapse s = sub_underscore_runs s"
  by (induction s rule: spec_collapse.induct) auto

text \<open>
  C4: for every string, \<open>clean_text\<close> equals the six steps of the specification in
  their order: strip white space, newline to space, every character outside
  \<open>{a-z, A-Z, 0-9, _, &, -}\<close> to an underscore, collapse runs of underscores, strip
  underscores, keep at most 80 code points.
\<close>

theorem clean_text_steps: "clean_text s = clean_text_spec s"
  by (simp add: clean_text_def clean_text_spec_def spec_strip_eq spec_allowed_eq
      spec_collapse_eq py_strip_def strip_chars_def replace_char_def re_sub_invalid_def ascii_def)



section \<open>The two copies of the core\<close>

lemma app_keyword_loop_eq: "app_keyword_loop U lines = keyword_loop U lines"
proof (induction lines)
  case Nil
  show ?case by simp
next
  case (Cons line rest)
  show ?case
    by (simp only: app_keyword_loop.simps keyword_loop.simps Cons.IH
        product_keywords_def [symmetric] exclude_phrases_def [symmetric])
qed

lemma app_trigger_loop_eq: "app_trigger_loop U lines ps = trigger_loop U lines ps"
proof (induction ps)
  case Nil
  show ?case by simp
next
  case (Cons p rest)
  obtain i line where p: "p = (i, line)" by (cases p)
  show ?case
    unfolding p
    by (simp only: app_trigger_loop.simps trigger_loop.simps Cons.IH
        trigger_phrases_def [symmetric])
qed

lemma app_attribution_loop_eq: "app_attribution_loop U lines = attribution_loop U lines"
  by (induction lines) simp_all

lemma app_fallback_loop_eq: "app_fallback_loop U lines = fallback_loop U lines"
proof (induction lines)
  case Nil
  show ?case by simp
next
  case (Cons line rest)
  show ?case
    by (simp only: app_fallback_loop.simps fallback_loop.simps Cons.IH headers_def [symmetric])
qed

text \<open>
  C10: the copies in \<open>main.py\<close> and \<open>app.py\<close> agree: on every string the two
  \<open>clean_text\<close> return the same result, and on every text the two
  \<open>extract_product_name\<close> return the same result.
\<close>

theorem app_copies_equal:
  "app_clean_text s = clean_text s
   \<and> app_extract_product_name U text = extract_product_name U text"
  by (simp only: app_clean_text_def clean_text_def app_extract_product_name_def
      extract_product_name_def text_lines_def app_keyword_loop_eq app_trigger_loop_eq
      app_attribution_loop_eq app_fallback_loop_eq simp_thms)



section \<open>The strategies of \<open>extract_product_name\<close>\<close>

lemma py_in_sublist: "py_in sub s = sublist sub s"
  by (induction s) (auto simp: sublist_Cons_right)

lemma list_ex_contains_any: "list_ex (\<lambda>p. py_in p s) phrases = contains_any phrases s"
  by (simp add: list_ex_iff contains_any_def py_in_sublist)

lemma keyword_loop_find: "keyword_loop U lines = find (keyword_match U) lines"
  by (induction lines) (simp_all add: Let_def list_ex_contains_any keyword_match_def)

lemma fallback_loop_find: "fallback_loop U lines = find (fallback_match U) lines"
  by (induction lines) (simp_all add: list_ex_contains_any fallback_match_def)

lemma getitem_prev:
  "0 < i \<Longrightarrow> i \<le> length lines \<Longrightarrow> getitem lines (int i - 1) = Inr (lines ! (i - 1))"
  by (auto simp: getitem_def nat_diff_distrib')

lemma trigger_loop_find:
  "k \<le> length lines \<Longrightarrow>
   trigger_loop U lines (enumerate k (drop k lines))
     = Inr (map_option (\<lambda>i. lines ! (i - 1)) (find (trigger_pair U lines) [k..<length lines]))"
proof (induction "length lines - k" arbitrary: k)
  case 0
  then show ?case by simp
next
  case (Suc n)
  then have k: "k < length lines" and n: "n = length lines - Suc k" by simp_all
  have d: "drop k lines = lines ! k # drop (Suc k) lines"
    using k by (simp add: Cons_nth_drop_Suc)
  have u: "[k..<length lines] = k # [Suc k..<length lines]"
    using k by (simp add: upt_conv_Cons)
  have ih: "trigger_loop U lines (enumerate (Suc k) (drop (Suc k) lines))
     = Inr (map_option (\<lambda>i. lines ! (i - 1))
         (find (trigger_pair U lines) [Suc k..<length lines]))"
    using Suc.hyps(1) [OF n] k by simp
  show ?case
  proof (cases "0 < k")
    case True
    with k have "getitem lines (int k - 1) = Inr (lines ! (k - 1))"
      by (simp add: getitem_prev)
    with True k ih show ?thesis
      unfolding d u
      by (simp add: Let_def list_ex_contains_any trigger_pair_def)
  next
    case False
    with k ih show ?thesis
      unfolding d u
      by (simp add: Let_def list_ex_contains_any trigger_pair_def)
  qed
qed


lemma ignorecase_is_word:
  "ignorecase_eq pat c \<Longrightarrow> 97 \<le> pat \<Longrightarrow> pat \<le> 122 \<Longrightarrow> is_word U c"
  by (auto simp: ignorecase_eq_def ascii_lower_def is_word_def split: if_splits)

lemma literal_at_words:
  assumes lit: "literal_at w s p" and ne: "w \<noteq> []"
    and low: "\<forall>c \<in> set w. 97 \<le> c \<and> c \<le> 122"
  shows "is_word U (s ! p)" and "is_word U (s ! (p + length w - 1))"
proof -
  from lit have len: "p + length w \<le> length s"
    and all: "list_all2 ignorecase_eq w (take (length w) (drop p s))"
    by (simp_all add: literal_at_def)
  have nth: "ignorecase_eq (w ! j) (s ! (p + j))" if "j < length w" for j
  proof -
    from all that have "ignorecase_eq (w ! j) (take (length w) (drop p s) ! j)"
      by (rule list_all2_nthD)
    with that len show ?thesis by simp
  qed
  from ne have 0: "0 < length w" by simp
  with nth [of 0] low show "is_word U (s ! p)"
    by (auto intro: ignorecase_is_word)
  from 0 have j: "length w - 1 < length w" by simp
  then have "w ! (length w - 1) \<in> set w" by (rule nth_mem)
  with low have "97 \<le> w ! (length w - 1)" "w ! (length w - 1) \<le> 122" by auto
  with nth [OF j] have "is_word U (s ! (p + (length w - 1)))"
    by (rule ignorecase_is_word)
  moreover from 0 have "p + (length w - 1) = p + length w - 1" by linarith
  ultimately show "is_word U (s ! (p + length w - 1))" by (simp only:)
qed

lemma word_at_iff:
  assumes ne: "w \<noteq> []" and low: "\<forall>c \<in> set w. 97 \<le> c \<and> c \<le> 122"
  shows "word_at U w s p \<longleftrightarrow>
     literal_at w s p
     \<and> (p = 0 \<or> \<not> is_word U (s ! (p - 1)))
     \<and> (p + length w = length s \<or> \<not> is_word U (s ! (p + length w)))"
proof (cases "literal_at w s p")
  case False
  then show ?thesis by (simp add: word_at_def)
next
  case True
  then have len: "p + length w \<le> length s" by (simp add: literal_at_def)
  from ne have 0: "0 < length w" by simp
  with len have p: "p < length s" by linarith
  then have s: "s \<noteq> []" by auto
  note ww = literal_at_words [OF True ne low, of U]
  have b1: "at_boundary U s p \<longleftrightarrow> (p = 0 \<or> \<not> is_word U (s ! (p - 1)))"
    using s p ww(1) by (auto simp: at_boundary_def Let_def)
  have b2: "at_boundary U s (p + length w)
      \<longleftrightarrow> (p + length w = length s \<or> \<not> is_word U (s ! (p + length w)))"
    using s len 0 ww(2) by (auto simp: at_boundary_def Let_def)
  from True b1 b2 show ?thesis by (simp add: word_at_def)
qed

lemma whole_word_iff:
  assumes ne: "w \<noteq> []" and low: "\<forall>c \<in> set w. 97 \<le> c \<and> c \<le> 122"
  shows "whole_word U w s \<longleftrightarrow> (\<exists>p \<le> length s. word_at U w s p)"
proof
  assume "whole_word U w s"
  then obtain pre mid post where s: "s = pre @ mid @ post"
    and m: "list_all2 ignorecase_eq w mid"
    and l: "pre = [] \<or> \<not> is_word U (last pre)"
    and r: "post = [] \<or> \<not> is_word U (hd post)"
    by (auto simp: whole_word_def)
  from m have lm: "length mid = length w" by (simp add: list_all2_lengthD)
  have lit: "literal_at w s (length pre)"
    using m lm by (simp add: literal_at_def s)
  have left: "length pre = 0 \<or> \<not> is_word U (s ! (length pre - 1))"
  proof (cases "pre = []")
    case True then show ?thesis by simp
  next
    case False
    then have "s ! (length pre - 1) = last pre"
      by (simp add: s nth_append last_conv_nth)
    with l False show ?thesis by simp
  qed
  have right: "length pre + length w = length s \<or> \<not> is_word U (s ! (length pre + length w))"
  proof (cases "post = []")
    case True then show ?thesis by (simp add: s lm)
  next
    case False
    then have "s ! (length pre + length w) = hd post"
      using lm by (simp add: s nth_append hd_conv_nth)
    with r False show ?thesis by simp
  qed
  from lit left right have "word_at U w s (length pre)"
    by (simp add: word_at_iff [OF ne low])
  moreover have "length pre \<le> length s" by (simp add: s)
  ultimately show "\<exists>p \<le> length s. word_at U w s p" by blast
next
  assume "\<exists>p \<le> length s. word_at U w s p"
  then obtain p where p: "p \<le> length s" and wa: "word_at U w s p" by blast
  from wa have lit: "literal_at w s p"
    and left: "p = 0 \<or> \<not> is_word U (s ! (p - 1))"
    and right: "p + length w = length s \<or> \<not> is_word U (s ! (p + length w))"
    by (simp_all add: word_at_iff [OF ne low])
  from lit have len: "p + length w \<le> length s"
    and m: "list_all2 ignorecase_eq w (take (length w) (drop p s))"
    by (simp_all add: literal_at_def)
  let ?pre = "take p s" and ?mid = "take (length w) (drop p s)"
  let ?post = "drop (length w) (drop p s)"
  have s: "s = ?pre @ ?mid @ ?post" by (simp only: append_take_drop_id)
  have l: "?pre = [] \<or> \<not> is_word U (last ?pre)"
  proof (cases "p = 0")
    case True then show ?thesis by simp
  next
    case False
    with p have ne: "take p s \<noteq> []" and lp: "length (take p s) = p" by auto
    from ne have "last (take p s) = take p s ! (length (take p s) - 1)"
      by (rule last_conv_nth)
    also from False have "\<dots> = s ! (p - 1)" unfolding lp by (intro nth_take) simp
    finally have "last (take p s) = s ! (p - 1)" .
    with left False show ?thesis by simp
  qed
  have r: "?post = [] \<or> \<not> is_word U (hd ?post)"
  proof (cases "p + length w = length s")
    case True then show ?thesis by simp
  next
    case False
    with len have "hd ?post = s ! (p + length w)"
      by (simp add: hd_drop_conv_nth add.commute)
    with right False show ?thesis by simp
  qed
  from s m l r show "whole_word U w s" unfolding whole_word_def by blast
qed

lemma re_search_by_from_iff:
  "re_search_by_from U line
     \<longleftrightarrow> whole_word U (ascii ''by'') line \<or> whole_word U (ascii ''from'') line"
proof -
  have wby: "whole_word U (ascii ''by'') line
      \<longleftrightarrow> (\<exists>p \<le> length line. word_at U (ascii ''by'') line p)"
    by (rule whole_word_iff) (simp_all add: ascii_def)
  have wfrom: "whole_word U (ascii ''from'') line
      \<longleftrightarrow> (\<exists>p \<le> length line. word_at U (ascii ''from'') line p)"
    by (rule whole_word_iff) (simp_all add: ascii_def)
  have "re_search_by_from U line
      \<longleftrightarrow> (\<exists>p \<le> length line. word_at U (ascii ''by'') line p \<or> word_at U (ascii ''from'') line p)"
    unfolding re_search_by_from_def list_ex_iff set_upt
    by (auto simp only: Bex_def atLeastLessThan_iff less_Suc_eq_le le0 simp_thms)
  with wby wfrom show ?thesis by blast
qed

lemma attribution_loop_find: "attribution_loop U lines = find (attribution_match U) lines"
  by (induction lines) (simp_all add: re_search_by_from_iff attribution_match_def)

lemma extract_product_name_strategies:
  "extract_product_name U text =
     (let lines = text_lines text in
      case find (keyword_match U) lines of
        Some l \<Rightarrow> Inr (Some l)
      | None \<Rightarrow>
          (case find (trigger_pair U lines) [0..<length lines] of
             Some i \<Rightarrow> Inr (Some (lines ! (i - 1)))
           | None \<Rightarrow>
               (case find (attribution_match U) lines of
                  Some l \<Rightarrow> Inr (Some l)
                | None \<Rightarrow> Inr (find (fallback_match U) lines))))"
proof -
  have t: "trigger_loop U lines (enumerate 0 lines)
     = Inr (map_option (\<lambda>i. lines ! (i - 1)) (find (trigger_pair U lines) [0..<length lines]))"
    for lines
    using trigger_loop_find [of 0 lines U] by simp
  show ?thesis
    unfolding extract_product_name_def keyword_loop_find t attribution_loop_find
      fallback_loop_find
    by (simp add: Let_def split: option.splits)
qed



section \<open>First hits\<close>

lemma find_first:
  "find P xs = Some x \<Longrightarrow> \<exists>pre post. xs = pre @ x # post \<and> P x \<and> (\<forall>y \<in> set pre. \<not> P y)"
proof (induction xs)
  case Nil
  then show ?case by simp
next
  case (Cons a xs)
  show ?case
  proof (cases "P a")
    case True
    with Cons.prems have "a = x" by simp
    with True have "a # xs = [] @ x # xs \<and> P x \<and> (\<forall>y \<in> set []. \<not> P y)" by simp
    then show ?thesis by blast
  next
    case False
    with Cons obtain pre post where "xs = pre @ x # post" "P x" "\<forall>y \<in> set pre. \<not> P y"
      by auto
    with False have "a # xs = (a # pre) @ x # post \<and> P x \<and> (\<forall>y \<in> set (a # pre). \<not> P y)"
      by simp
    then show ?thesis by blast
  qed
qed

lemma find_append_first:
  "find P (xs @ ys) = (case find P xs of None \<Rightarrow> find P ys | Some x \<Rightarrow> Some x)"
  by (induction xs) simp_all

lemma find_upt_first:
  assumes "P i" "i < n" "\<forall>j < i. \<not> P j"
  shows "find P [0..<n] = Some i"
proof -
  from assms(2) have "[0..<i + (n - i)] = [0..<i] @ [i..<i + (n - i)]"
    by (intro upt_add_eq_append) simp
  with assms(2) have "[0..<i] @ [i..<n] = [0..<n]" by simp
  moreover from assms(2) have "[i..<n] = i # [Suc i..<n]" by (rule upt_conv_Cons)
  ultimately have "[0..<n] = [0..<i] @ i # [Suc i..<n]" by simp
  moreover from assms(3) have "find P [0..<i] = None" by (simp add: find_None_iff)
  ultimately show ?thesis using assms(1) by (simp add: find_append_first)
qed

lemma find_upt_none: "\<forall>i. i < n \<longrightarrow> \<not> P i \<Longrightarrow> find P [0..<n] = None"
  by (simp add: find_None_iff)


section \<open>Running the examples\<close>

lemmas line_eval = text_lines_def py_split_def py_strip_def strip_where_def isspace_def ascii_def

lemmas phrase_eval = contains_any_def product_keywords_def exclude_phrases_def
  trigger_phrases_def headers_def py_lower_def ascii_lower_def ascii_def sublist_code

lemmas search_eval = re_search_by_from_def word_at_def at_boundary_def literal_at_def
  ignorecase_eq_def ascii_lower_def is_word_def ascii_def

lemma lines_vitamin:
  "text_lines (ascii ''Vitamin C Serum\<newline>Brand X Serum was evaluated'')
     = [ascii ''Vitamin C Serum'', ascii ''Brand X Serum was evaluated'']"
  by (simp add: line_eval)

lemma keyword_vitamin: "keyword_match U (ascii ''Vitamin C Serum'')"
  by (simp add: keyword_match_def phrase_eval)

lemma trigger_vitamin:
  "trigger_pair U [ascii ''Vitamin C Serum'', ascii ''Brand X Serum was evaluated''] 1"
  by (simp add: trigger_pair_def phrase_eval)

lemma excluded_serum:
  "contains_any exclude_phrases (py_lower U (ascii ''Serum Ingredients Description''))"
  by (simp add: phrase_eval)

lemma lines_bystander:
  "text_lines (ascii ''Bystander Corp Products'') = [ascii ''Bystander Corp Products'']"
  by (simp add: line_eval)

lemma no_search_bystander: "\<not> re_search_by_from U (ascii ''Bystander Corp Products'')"
  by (simp add: search_eval)

lemma lines_night:
  "text_lines (ascii ''Night Repair by Luna'') = [ascii ''Night Repair by Luna'']"
  by (simp add: line_eval)

lemma no_keyword_night: "\<not> keyword_match U (ascii ''Night Repair by Luna'')"
  by (simp add: keyword_match_def phrase_eval)

lemma search_night: "re_search_by_from U (ascii ''Night Repair by Luna'')"
  by (simp add: search_eval)

lemma lines_empty: "text_lines (ascii '''') = []"
  by (simp add: line_eval)

lemma lines_blank: "text_lines (ascii ''   \<newline>\<newline>  '') = []"
  by (simp add: line_eval)

lemma no_keyword_plain: "\<not> keyword_match U (ascii ''Plain Product Label'')"
  by (simp add: keyword_match_def phrase_eval)

lemma no_search_plain: "\<not> re_search_by_from U (ascii ''Plain Product Label'')"
  by (simp add: search_eval)

lemma fallback_plain: "fallback_match U (ascii ''Plain Product Label'')"
  by (simp add: fallback_match_def phrase_eval)

lemma no_trigger_single: "\<not> trigger_pair U [l] i"
  by (auto simp: trigger_pair_def)

lemma no_keyword_find: "\<forall>l \<in> set lines. \<not> keyword_match U l \<Longrightarrow> find (keyword_match U) lines = None"
  by (simp add: find_None_iff)

lemma no_trigger_find:
  "\<forall>i. \<not> trigger_pair U lines i \<Longrightarrow> find (trigger_pair U lines) [0..<length lines] = None"
  by (simp add: find_None_iff)

lemma no_attribution_find:
  "\<forall>l \<in> set lines. \<not> attribution_match U l \<Longrightarrow> find (attribution_match U) lines = None"
  by (simp add: find_None_iff)

lemma extract_vitamin:
  "extract_product_name U (ascii ''Vitamin C Serum\<newline>Brand X Serum was evaluated'')
     = Inr (Some (ascii ''Vitamin C Serum''))"
  unfolding extract_product_name_strategies lines_vitamin
  by (simp add: keyword_vitamin)

lemma extract_night:
  "extract_product_name U (ascii ''Night Repair by Luna'')
     = Inr (Some (ascii ''Night Repair by Luna''))"
  unfolding extract_product_name_strategies lines_night
  by (simp add: no_keyword_night no_trigger_single attribution_match_def
      re_search_by_from_iff [symmetric] search_night)
     (simp add: ascii_def)

lemma extract_empty: "extract_product_name U (ascii '''') = Inr None"
  unfolding extract_product_name_strategies lines_empty by simp

lemma extract_blank: "extract_product_name U (ascii ''   \<newline>\<newline>  '') = Inr None"
  unfolding extract_product_name_strategies lines_blank by simp


section \<open>Lines, phrases and searches on concrete texts\<close>

lemma text_lines_trimmed:
  "l \<in> set (text_lines text) \<Longrightarrow> l \<noteq> [] \<and> \<not> isspace (hd l) \<and> \<not> isspace (last l)"
proof -
  assume "l \<in> set (text_lines text)"
  then obtain line where l: "l = strip_where isspace line" and ne: "l \<noteq> []"
    by (auto simp: text_lines_def py_strip_def)
  from ne obtain c t where "l = c # t" by (cases l) auto
  with l have "\<not> isspace c" by (metis strip_where_no_lead)
  with \<open>l = c # t\<close> have h: "\<not> isspace (hd l)" by simp
  from ne have "l = butlast l @ [last l]" by simp
  with l have "\<not> isspace (last l)" by (metis strip_where_no_trail)
  with ne h show ?thesis by simp
qed

lemma no_trigger_phrase:
  "\<forall>l \<in> set lines. \<not> contains_any trigger_phrases (py_lower U l) \<Longrightarrow> \<not> trigger_pair U lines i"
  by (auto simp: trigger_pair_def)

lemma attribution_match_search:
  "attribution_match U line
     \<longleftrightarrow> re_search_by_from U line \<and> 5 < length line \<and> length line < 100"
  by (simp add: attribution_match_def re_search_by_from_iff)

lemma is_word_ascii:
  "c < 128 \<Longrightarrow>
   is_word U c \<longleftrightarrow> c \<in> set ([of_char CHR ''0''..<Suc (of_char CHR ''9'')]
     @ [of_char CHR ''A''..<Suc (of_char CHR ''Z'')]
     @ [of_char CHR ''a''..<Suc (of_char CHR ''z'')] @ ascii ''_'')"
  unfolding set_append set_upt by (auto simp: is_word_def ascii_def)

lemma ignorecase_letters:
  "p \<in> set (ascii ''byfrom'') \<Longrightarrow> ignorecase_eq p c \<longleftrightarrow> c = p \<or> c + 32 = p"
  by (auto simp: ignorecase_eq_def ascii_lower_def ascii_def)

lemma lines_keyword_text:
  "text_lines (ascii (''   Serum INGREDIENTS Description  '' @ [CHR 0x0D]
       @ ''\<newline>\<newline>  Cream\<newline>   Radiant GLOW Face SERUM  \<newline>Night Cream''))
     = [ascii ''Serum INGREDIENTS Description'', ascii ''Cream'',
        ascii ''Radiant GLOW Face SERUM'', ascii ''Night Cream'']"
  by (simp add: line_eval)

lemma excluded_upper:
  "contains_any exclude_phrases (py_lower U (ascii ''Serum INGREDIENTS Description''))"
  by (simp add: phrase_eval)

lemma short_cream: "\<not> keyword_match U (ascii ''Cream'')"
  by (simp add: keyword_match_def ascii_def)

lemma keyword_upper: "keyword_match U (ascii ''Radiant GLOW Face SERUM'')"
  by (simp add: keyword_match_def phrase_eval)

lemma lines_trigger_text:
  "text_lines (ascii
       ''  Ab 1  \<newline>tested for X\<newline>\<newline>  Abc 12  \<newline>  TEST RESULTS  '')
     = [ascii ''Ab 1'', ascii ''tested for X'', ascii ''Abc 12'', ascii ''TEST RESULTS'']"
  by (simp add: line_eval)

lemma no_keyword_trigger_text:
  "\<not> keyword_match U (ascii ''Ab 1'')" "\<not> keyword_match U (ascii ''tested for X'')"
  "\<not> keyword_match U (ascii ''Abc 12'')" "\<not> keyword_match U (ascii ''TEST RESULTS'')"
  by (simp_all add: keyword_match_def phrase_eval)

lemma pairs_trigger_text:
  "\<not> trigger_pair U
      [ascii ''Ab 1'', ascii ''tested for X'', ascii ''Abc 12'', ascii ''TEST RESULTS''] 0"
  "\<not> trigger_pair U
      [ascii ''Ab 1'', ascii ''tested for X'', ascii ''Abc 12'', ascii ''TEST RESULTS''] 1"
  "\<not> trigger_pair U
      [ascii ''Ab 1'', ascii ''tested for X'', ascii ''Abc 12'', ascii ''TEST RESULTS''] 2"
  "trigger_pair U
      [ascii ''Ab 1'', ascii ''tested for X'', ascii ''Abc 12'', ascii ''TEST RESULTS''] 3"
  by (simp_all add: trigger_pair_def phrase_eval)

lemma trigger_phrase_before_short:
  "contains_any trigger_phrases (py_lower U (ascii ''tested for X''))"
  by (simp add: phrase_eval)

lemma lines_attribution_text:
  "text_lines (ascii ''By me\<newline>  Night Repair BY Luna  \<newline>Gift from Paris'')
     = [ascii ''By me'', ascii ''Night Repair BY Luna'', ascii ''Gift from Paris'']"
  by (simp add: line_eval)

lemma no_keyword_attribution_text:
  "\<not> keyword_match U (ascii ''By me'')" "\<not> keyword_match U (ascii ''Night Repair BY Luna'')"
  "\<not> keyword_match U (ascii ''Gift from Paris'')"
  by (simp_all add: keyword_match_def phrase_eval)

lemma no_trigger_attribution_text:
  "\<not> contains_any trigger_phrases (py_lower U (ascii ''By me''))"
  "\<not> contains_any trigger_phrases (py_lower U (ascii ''Night Repair BY Luna''))"
  "\<not> contains_any trigger_phrases (py_lower U (ascii ''Gift from Paris''))"
  by (simp_all add: phrase_eval)

lemma search_by_me: "re_search_by_from U (ascii ''By me'')"
  by (simp add: search_eval)

lemma search_upper_by: "re_search_by_from U (ascii ''Night Repair BY Luna'')"
  by (simp add: search_eval)

lemma search_capital_from: "re_search_by_from U (ascii ''From X'')"
  by (simp add: search_eval)

lemma search_gift: "re_search_by_from U (ascii ''Gift from Paris'')"
  by (simp add: search_eval)

lemma no_search_underscore: "\<not> re_search_by_from U (ascii ''a_by_b'')"
  by (simp add: search_eval)

lemma no_search_digits: "\<not> re_search_by_from U (ascii ''3by4 xx'')"
  by (simp add: search_eval)

lemma lines_fallback_text:
  "text_lines (ascii (''  Lab REPORT 2024 \<newline> Short line\<newline>\<newline>''
       @ ''  Plain Product Label  \<newline>Another Plain Label''))
     = [ascii ''Lab REPORT 2024'', ascii ''Short line'', ascii ''Plain Product Label'',
        ascii ''Another Plain Label'']"
  by (simp add: line_eval)

lemma lines_none_text:
  "text_lines (ascii ''Lab REPORT 2024\<newline>TEST\<newline>Short line'')
     = [ascii ''Lab REPORT 2024'', ascii ''TEST'', ascii ''Short line'']"
  by (simp add: line_eval)

lemma no_keyword_fallback_text:
  "\<not> keyword_match U (ascii ''Lab REPORT 2024'')" "\<not> keyword_match U (ascii ''Short line'')"
  "\<not> keyword_match U (ascii ''Another Plain Label'')" "\<not> keyword_match U (ascii ''TEST'')"
  by (simp_all add: keyword_match_def phrase_eval)

lemma no_trigger_fallback_text:
  "\<not> contains_any trigger_phrases (py_lower U (ascii ''Lab REPORT 2024''))"
  "\<not> contains_any trigger_phrases (py_lower U (ascii ''Short line''))"
  "\<not> contains_any trigger_phrases (py_lower U (ascii ''Plain Product Label''))"
  "\<not> contains_any trigger_phrases (py_lower U (ascii ''Another Plain Label''))"
  "\<not> contains_any trigger_phrases (py_lower U (ascii ''TEST''))"
  by (simp_all add: phrase_eval)

lemma no_search_fallback_text:
  "\<not> re_search_by_from U (ascii ''Lab REPORT 2024'')"
  "\<not> re_search_by_from U (ascii ''Short line'')"
  "\<not> re_search_by_from U (ascii ''Another Plain Label'')"
  "\<not> re_search_by_from U (ascii ''TEST'')"
  by (simp_all add: search_eval)

lemma fallback_fallback_text:
  "\<not> fallback_match U (ascii ''Lab REPORT 2024'')" "\<not> fallback_match U (ascii ''Short line'')"
  "\<not> fallback_match U (ascii ''TEST'')"
  by (simp_all add: fallback_match_def phrase_eval)


section \<open>The claims about \<open>extract_product_name\<close>\<close>

text \<open>
  C2: the four strategies run in strict order and the first that returns a line decides
  the result, whatever the later ones would do. In particular, when some line satisfies
  Strategy 1 and some pair of lines satisfies Strategy 2, the result is the first line
  that satisfies Strategy 1; the text \<open>Vitamin C Serum / Brand X Serum was evaluated\<close>
  gives \<open>Vitamin C Serum\<close>.
\<close>

theorem strategy_order:
  "(keyword_loop U (text_lines text) = Some l
      \<longrightarrow> extract_product_name U text = Inr (Some l))
   \<and> (keyword_loop U (text_lines text) = None
        \<and> trigger_loop U (text_lines text) (enumerate 0 (text_lines text)) = Inr (Some l)
      \<longrightarrow> extract_product_name U text = Inr (Some l))
   \<and> (keyword_loop U (text_lines text) = None
        \<and> trigger_loop U (text_lines text) (enumerate 0 (text_lines text)) = Inr None
        \<and> attribution_loop U (text_lines text) = Some l
      \<longrightarrow> extract_product_name U text = Inr (Some l))
   \<and> (keyword_loop U (text_lines text) = None
        \<and> trigger_loop U (text_lines text) (enumerate 0 (text_lines text)) = Inr None
        \<and> attribution_loop U (text_lines text) = None
      \<longrightarrow> extract_product_name U text = Inr (fallback_loop U (text_lines text)))
   \<and> (m \<in> set (text_lines text) \<and> keyword_match U m \<and> trigger_pair U (text_lines text) i
      \<longrightarrow> find (keyword_match U) (text_lines text) \<noteq> None
        \<and> extract_product_name U text = Inr (find (keyword_match U) (text_lines text)))
   \<and> extract_product_name U (ascii ''Vitamin C Serum\<newline>Brand X Serum was evaluated'')
        = Inr (Some (ascii ''Vitamin C Serum''))"
proof (intro conjI impI)
  show "extract_product_name U text = Inr (Some l)"
    if "keyword_loop U (text_lines text) = Some l"
    using that by (simp add: extract_product_name_def)
  show "extract_product_name U text = Inr (Some l)"
    if "keyword_loop U (text_lines text) = None
        \<and> trigger_loop U (text_lines text) (enumerate 0 (text_lines text)) = Inr (Some l)"
    using that by (simp add: extract_product_name_def)
  show "extract_product_name U text = Inr (Some l)"
    if "keyword_loop U (text_lines text) = None
        \<and> trigger_loop U (text_lines text) (enumerate 0 (text_lines text)) = Inr None
        \<and> attribution_loop U (text_lines text) = Some l"
    using that by (simp add: extract_product_name_def)
  show "extract_product_name U text = Inr (fallback_loop U (text_lines text))"
    if "keyword_loop U (text_lines text) = None
        \<and> trigger_loop U (text_lines text) (enumerate 0 (text_lines text)) = Inr None
        \<and> attribution_loop U (text_lines text) = None"
    using that by (simp add: extract_product_name_def split: option.splits)
  assume both: "m \<in> set (text_lines text) \<and> keyword_match U m
      \<and> trigger_pair U (text_lines text) i"
  then show hit: "find (keyword_match U) (text_lines text) \<noteq> None"
    by (auto simp: find_None_iff)
  then show "extract_product_name U text = Inr (find (keyword_match U) (text_lines text))"
    unfolding extract_product_name_strategies by (auto simp: Let_def)
next
  show "extract_product_name U (ascii ''Vitamin C Serum\<newline>Brand X Serum was evaluated'')
        = Inr (Some (ascii ''Vitamin C Serum''))"
    by (rule extract_vitamin)
qed

theorem strategy_order_witness:
  "\<forall>U. ascii ''Vitamin C Serum''
          \<in> set (text_lines (ascii ''Vitamin C Serum\<newline>Brand X Serum was evaluated''))
      \<and> keyword_match U (ascii ''Vitamin C Serum'')
      \<and> trigger_pair U
          (text_lines (ascii ''Vitamin C Serum\<newline>Brand X Serum was evaluated'')) 1
      \<and> extract_product_name U (ascii ''Vitamin C Serum\<newline>Brand X Serum was evaluated'')
          = Inr (find (keyword_match U)
              (text_lines (ascii ''Vitamin C Serum\<newline>Brand X Serum was evaluated'')))
      \<and> find (keyword_match U)
          (text_lines (ascii ''Vitamin C Serum\<newline>Brand X Serum was evaluated''))
          = Some (ascii ''Vitamin C Serum'')"
proof
  fix U
  let ?t = "ascii ''Vitamin C Serum\<newline>Brand X Serum was evaluated''"
  have a: "ascii ''Vitamin C Serum'' \<in> set (text_lines ?t)"
    unfolding lines_vitamin by simp
  have b: "keyword_match U (ascii ''Vitamin C Serum'')" by (rule keyword_vitamin)
  have c: "trigger_pair U (text_lines ?t) 1"
    unfolding lines_vitamin by (rule trigger_vitamin)
  from a b c strategy_order [of U ?t _ "ascii ''Vitamin C Serum''" 1]
  have d: "extract_product_name U ?t = Inr (find (keyword_match U) (text_lines ?t))"
    by blast
  have e: "find (keyword_match U) (text_lines ?t) = Some (ascii ''Vitamin C Serum'')"
    unfolding lines_vitamin by (simp add: keyword_vitamin)
  from a b c d e
  show "ascii ''Vitamin C Serum'' \<in> set (text_lines ?t)
      \<and> keyword_match U (ascii ''Vitamin C Serum'')
      \<and> trigger_pair U (text_lines ?t) 1
      \<and> extract_product_name U ?t = Inr (find (keyword_match U) (text_lines ?t))
      \<and> find (keyword_match U) (text_lines ?t) = Some (ascii ''Vitamin C Serum'')"
    by blast
qed



text \<open>
  C3: Strategy 1 returns the first line, in the order of the text, whose lower-case form
  contains one of the sixteen keywords and none of the eight exclusion phrases and whose
  length is strictly between 5 and 100. The lines are the trimmed, non-empty lines of the
  text. A line with an exclusion phrase is skipped inside Strategy 1: the loop goes on
  with the next line, and a text whose only keyword line is excluded leaves Strategy 1
  without a result. In the text of the last two clauses the first line is padded, ends
  in a carriage return and is excluded through upper-case letters, a blank line follows,
  \<open>Cream\<close> has exactly 5 characters, and the padded third line is returned trimmed,
  before \<open>Night Cream\<close>.
\<close>

theorem keyword_strategy:
  "set product_keywords = ascii ` {''oil'', ''serum'', ''cream'', ''foundation'', ''lotion'',
       ''gel'', ''moisturizer'', ''cleanser'', ''toner'', ''essence'', ''mask'', ''balm'',
       ''primer'', ''powder'', ''lipstick'', ''mascara''}
   \<and> set exclude_phrases = ascii ` {''was evaluated'', ''tested'', ''description'',
       ''ingredients'', ''how to use'', ''directions'', ''warning'', ''caution''}
   \<and> (keyword_match U line
      \<longleftrightarrow> (\<exists>k \<in> set product_keywords. sublist k (py_lower U line))
        \<and> \<not> (\<exists>p \<in> set exclude_phrases. sublist p (py_lower U line))
        \<and> 5 < length line \<and> length line < 100)
   \<and> (t \<in> set (text_lines text) \<longrightarrow> t \<noteq> [] \<and> \<not> isspace (hd t) \<and> \<not> isspace (last t))
   \<and> keyword_loop U lines = find (keyword_match U) lines
   \<and> (find (keyword_match U) lines = Some l
      \<longrightarrow> (\<exists>pre post. lines = pre @ l # post \<and> keyword_match U l
            \<and> (\<forall>x \<in> set pre. \<not> keyword_match U x)))
   \<and> (find (keyword_match U) (text_lines text) = Some l
      \<longrightarrow> extract_product_name U text = Inr (Some l))
   \<and> (contains_any exclude_phrases (py_lower U line)
      \<longrightarrow> keyword_loop U (line # rest) = keyword_loop U rest
        \<and> keyword_loop U [line] = None)
   \<and> text_lines (ascii (''   Serum INGREDIENTS Description  '' @ [CHR 0x0D]
       @ ''\<newline>\<newline>  Cream\<newline>   Radiant GLOW Face SERUM  \<newline>Night Cream''))
        = [ascii ''Serum INGREDIENTS Description'', ascii ''Cream'',
           ascii ''Radiant GLOW Face SERUM'', ascii ''Night Cream'']
   \<and> extract_product_name U (ascii (''   Serum INGREDIENTS Description  '' @ [CHR 0x0D]
       @ ''\<newline>\<newline>  Cream\<newline>   Radiant GLOW Face SERUM  \<newline>Night Cream''))
        = Inr (Some (ascii ''Radiant GLOW Face SERUM''))"
proof (intro conjI impI)
  show "set product_keywords = ascii ` {''oil'', ''serum'', ''cream'', ''foundation'', ''lotion'',
       ''gel'', ''moisturizer'', ''cleanser'', ''toner'', ''essence'', ''mask'', ''balm'',
       ''primer'', ''powder'', ''lipstick'', ''mascara''}"
    unfolding product_keywords_def by (simp only: set_map set_simps)
  show "set exclude_phrases = ascii ` {''was evaluated'', ''tested'', ''description'',
       ''ingredients'', ''how to use'', ''directions'', ''warning'', ''caution''}"
    unfolding exclude_phrases_def by (simp only: set_map set_simps)
  show "keyword_match U line
      \<longleftrightarrow> (\<exists>k \<in> set product_keywords. sublist k (py_lower U line))
        \<and> \<not> (\<exists>p \<in> set exclude_phrases. sublist p (py_lower U line))
        \<and> 5 < length line \<and> length line < 100"
    by (simp only: keyword_match_def contains_any_def)
  show "t \<noteq> []" "\<not> isspace (hd t)" "\<not> isspace (last t)" if "t \<in> set (text_lines text)"
    using text_lines_trimmed [OF that] by simp_all
  show "keyword_loop U lines = find (keyword_match U) lines" by (rule keyword_loop_find)
  show "\<exists>pre post. lines = pre @ l # post \<and> keyword_match U l
      \<and> (\<forall>x \<in> set pre. \<not> keyword_match U x)"
    if "find (keyword_match U) lines = Some l"
    using that by (rule find_first)
  show "extract_product_name U text = Inr (Some l)"
    if "find (keyword_match U) (text_lines text) = Some l"
    using that unfolding extract_product_name_strategies by (simp add: Let_def)
  show "keyword_loop U (line # rest) = keyword_loop U rest"
    if "contains_any exclude_phrases (py_lower U line)"
    using that by (simp add: Let_def list_ex_contains_any)
  show "keyword_loop U [line] = None"
    if "contains_any exclude_phrases (py_lower U line)"
    using that by (simp add: Let_def list_ex_contains_any)
  show "text_lines (ascii (''   Serum INGREDIENTS Description  '' @ [CHR 0x0D]
       @ ''\<newline>\<newline>  Cream\<newline>   Radiant GLOW Face SERUM  \<newline>Night Cream''))
        = [ascii ''Serum INGREDIENTS Description'', ascii ''Cream'',
           ascii ''Radiant GLOW Face SERUM'', ascii ''Night Cream'']"
    by (simp add: line_eval)
  have "contains_any exclude_phrases (py_lower U (ascii ''Serum INGREDIENTS Description''))"
    by (simp add: phrase_eval)
  then have "\<not> keyword_match U (ascii ''Serum INGREDIENTS Description'')"
    by (simp add: keyword_match_def)
  moreover have "keyword_match U (ascii ''Radiant GLOW Face SERUM'')"
    by (simp add: keyword_match_def phrase_eval)
  ultimately show "extract_product_name U (ascii (''   Serum INGREDIENTS Description  '' @ [CHR 0x0D]
       @ ''\<newline>\<newline>  Cream\<newline>   Radiant GLOW Face SERUM  \<newline>Night Cream''))
        = Inr (Some (ascii ''Radiant GLOW Face SERUM''))"
    unfolding extract_product_name_strategies lines_keyword_text
    by (simp add: short_cream)
qed

theorem keyword_strategy_witness:
  "\<forall>U. contains_any exclude_phrases (py_lower U (ascii ''Serum INGREDIENTS Description''))
      \<and> keyword_loop U [ascii ''Serum INGREDIENTS Description''] = None
      \<and> \<not> keyword_match U (ascii ''Cream'')
      \<and> keyword_match U (ascii ''Radiant GLOW Face SERUM'')
      \<and> find (keyword_match U)
          (text_lines (ascii (''   Serum INGREDIENTS Description  '' @ [CHR 0x0D]
             @ ''\<newline>\<newline>  Cream\<newline>   Radiant GLOW Face SERUM  \<newline>Night Cream'')))
          = Some (ascii ''Radiant GLOW Face SERUM'')
      \<and> extract_product_name U
          (ascii (''   Serum INGREDIENTS Description  '' @ [CHR 0x0D]
             @ ''\<newline>\<newline>  Cream\<newline>   Radiant GLOW Face SERUM  \<newline>Night Cream''))
          = Inr (Some (ascii ''Radiant GLOW Face SERUM''))
      \<and> ascii ''Radiant GLOW Face SERUM''
          \<in> set (text_lines (ascii (''   Serum INGREDIENTS Description  '' @ [CHR 0x0D]
             @ ''\<newline>\<newline>  Cream\<newline>   Radiant GLOW Face SERUM  \<newline>Night Cream'')))
      \<and> \<not> isspace (hd (ascii ''Radiant GLOW Face SERUM''))
      \<and> \<not> isspace (last (ascii ''Radiant GLOW Face SERUM''))"
proof
  fix U
  let ?t = "ascii (''   Serum INGREDIENTS Description  '' @ [CHR 0x0D]
      @ ''\<newline>\<newline>  Cream\<newline>   Radiant GLOW Face SERUM  \<newline>Night Cream'')"
  let ?x = "ascii ''Serum INGREDIENTS Description''"
  let ?r = "ascii ''Radiant GLOW Face SERUM''"
  note ks = keyword_strategy [of U ?x ?r ?t "text_lines ?t" ?r "[]"]
  from ks have lines: "text_lines ?t = [?x, ascii ''Cream'', ?r, ascii ''Night Cream'']"
    by blast
  have a: "contains_any exclude_phrases (py_lower U ?x)" by (rule excluded_upper)
  with ks have b: "keyword_loop U [?x] = None" by blast
  from a have nx: "\<not> keyword_match U ?x" by (simp add: keyword_match_def)
  have c: "\<not> keyword_match U (ascii ''Cream'')" by (rule short_cream)
  have d: "keyword_match U ?r" by (rule keyword_upper)
  from nx c d have e: "find (keyword_match U) (text_lines ?t) = Some ?r"
    unfolding lines by simp
  with ks have f: "extract_product_name U ?t = Inr (Some ?r)" by blast
  have g: "?r \<in> set (text_lines ?t)" unfolding lines by simp
  with ks have h: "\<not> isspace (hd ?r) \<and> \<not> isspace (last ?r)" by blast
  from a b c d e f g h
  show "contains_any exclude_phrases (py_lower U ?x)
      \<and> keyword_loop U [?x] = None
      \<and> \<not> keyword_match U (ascii ''Cream'')
      \<and> keyword_match U ?r
      \<and> find (keyword_match U) (text_lines ?t) = Some ?r
      \<and> extract_product_name U ?t = Inr (Some ?r)
      \<and> ?r \<in> set (text_lines ?t)
      \<and> \<not> isspace (hd ?r)
      \<and> \<not> isspace (last ?r)"
    by blast
qed

text \<open>
  C5: when no line satisfies Strategy 1, the result is the line before the first line
  \<open>i > 0\<close> whose lower-case form contains \<open>was evaluated\<close>, \<open>tested for\<close> or
  \<open>test results\<close> and whose preceding line \<open>i - 1\<close>, trimmed, is longer than 5. In
  the text of the last two clauses \<open>tested for X\<close> follows a line of 4 characters
  (8 with its padding) and is passed over; \<open>TEST RESULTS\<close>, in capitals and padded,
  follows \<open>Abc 12\<close>, which is returned trimmed.
\<close>

theorem trigger_strategy:
  "((\<forall>l \<in> set (text_lines text). \<not> keyword_match U l)
      \<and> trigger_pair U (text_lines text) i
      \<and> (\<forall>j < i. \<not> trigger_pair U (text_lines text) j)
      \<longrightarrow> extract_product_name U text = Inr (Some (text_lines text ! (i - 1))))
   \<and> set trigger_phrases = ascii ` {''was evaluated'', ''tested for'', ''test results''}
   \<and> (trigger_pair U lines i
      \<longleftrightarrow> 0 < i \<and> i < length lines
        \<and> (\<exists>p \<in> set trigger_phrases. sublist p (py_lower U (lines ! i)))
        \<and> 5 < length (lines ! (i - 1)))
   \<and> (t \<in> set (text_lines text) \<longrightarrow> t \<noteq> [] \<and> \<not> isspace (hd t) \<and> \<not> isspace (last t))
   \<and> text_lines (ascii
          ''  Ab 1  \<newline>tested for X\<newline>\<newline>  Abc 12  \<newline>  TEST RESULTS  '')
        = [ascii ''Ab 1'', ascii ''tested for X'', ascii ''Abc 12'', ascii ''TEST RESULTS'']
   \<and> extract_product_name U (ascii
          ''  Ab 1  \<newline>tested for X\<newline>\<newline>  Abc 12  \<newline>  TEST RESULTS  '')
        = Inr (Some (ascii ''Abc 12''))"
proof (intro conjI impI)
  show "extract_product_name U text = Inr (Some (text_lines text ! (i - 1)))"
    if h: "(\<forall>l \<in> set (text_lines text). \<not> keyword_match U l)
      \<and> trigger_pair U (text_lines text) i
      \<and> (\<forall>j < i. \<not> trigger_pair U (text_lines text) j)"
  proof -
    from h have k: "find (keyword_match U) (text_lines text) = None"
      by (simp add: no_keyword_find)
    from h have p: "trigger_pair U (text_lines text) i"
      and f: "\<forall>j < i. \<not> trigger_pair U (text_lines text) j" by simp_all
    from p have "i < length (text_lines text)" by (simp add: trigger_pair_def)
    with p have t: "find (trigger_pair U (text_lines text)) [0..<length (text_lines text)]
        = Some i"
      using f by (rule find_upt_first)
    show ?thesis unfolding extract_product_name_strategies by (simp add: Let_def k t)
  qed
  show "set trigger_phrases = ascii ` {''was evaluated'', ''tested for'', ''test results''}"
    unfolding trigger_phrases_def by (simp only: set_map set_simps)
  show "trigger_pair U lines i
      \<longleftrightarrow> 0 < i \<and> i < length lines
        \<and> (\<exists>p \<in> set trigger_phrases. sublist p (py_lower U (lines ! i)))
        \<and> 5 < length (lines ! (i - 1))"
    by (simp only: trigger_pair_def contains_any_def)
  show "t \<noteq> []" "\<not> isspace (hd t)" "\<not> isspace (last t)" if "t \<in> set (text_lines text)"
    using text_lines_trimmed [OF that] by simp_all
  show "text_lines (ascii
          ''  Ab 1  \<newline>tested for X\<newline>\<newline>  Abc 12  \<newline>  TEST RESULTS  '')
        = [ascii ''Ab 1'', ascii ''tested for X'', ascii ''Abc 12'', ascii ''TEST RESULTS'']"
    by (simp add: line_eval)
  let ?ls = "[ascii ''Ab 1'', ascii ''tested for X'', ascii ''Abc 12'', ascii ''TEST RESULTS'']"
  have k: "find (keyword_match U) ?ls = None" by (simp add: no_keyword_trigger_text)
  have pairs: "\<not> trigger_pair U ?ls 0" "\<not> trigger_pair U ?ls 1" "\<not> trigger_pair U ?ls 2"
    "trigger_pair U ?ls 3"
    by (simp_all add: trigger_pair_def phrase_eval)
  have "\<forall>j < 3. \<not> trigger_pair U ?ls j"
  proof (intro allI impI)
    fix j :: nat
    assume "j < 3"
    then have "j = 0 \<or> j = 1 \<or> j = 2" by linarith
    with pairs(1-3) show "\<not> trigger_pair U ?ls j" by blast
  qed
  with pairs(4) have t: "find (trigger_pair U ?ls) [0..<length ?ls] = Some 3"
    by (intro find_upt_first) simp_all
  show "extract_product_name U (ascii
          ''  Ab 1  \<newline>tested for X\<newline>\<newline>  Abc 12  \<newline>  TEST RESULTS  '')
        = Inr (Some (ascii ''Abc 12''))"
    unfolding extract_product_name_strategies lines_trigger_text Let_def k t by simp
qed

theorem trigger_strategy_witness:
  "\<forall>U. \<not> keyword_match U (ascii ''Ab 1'') \<and> \<not> keyword_match U (ascii ''tested for X'')
      \<and> \<not> keyword_match U (ascii ''Abc 12'') \<and> \<not> keyword_match U (ascii ''TEST RESULTS'')
      \<and> contains_any trigger_phrases (py_lower U (ascii ''tested for X''))
      \<and> \<not> trigger_pair U (text_lines (ascii
            ''  Ab 1  \<newline>tested for X\<newline>\<newline>  Abc 12  \<newline>  TEST RESULTS  '')) 1
      \<and> \<not> trigger_pair U (text_lines (ascii
            ''  Ab 1  \<newline>tested for X\<newline>\<newline>  Abc 12  \<newline>  TEST RESULTS  '')) 2
      \<and> trigger_pair U (text_lines (ascii
            ''  Ab 1  \<newline>tested for X\<newline>\<newline>  Abc 12  \<newline>  TEST RESULTS  '')) 3
      \<and> extract_product_name U (ascii
            ''  Ab 1  \<newline>tested for X\<newline>\<newline>  Abc 12  \<newline>  TEST RESULTS  '')
          = Inr (Some (ascii ''Abc 12''))"
proof
  fix U
  let ?t = "ascii ''  Ab 1  \<newline>tested for X\<newline>\<newline>  Abc 12  \<newline>  TEST RESULTS  ''"
  note ts = trigger_strategy [of ?t U 3 "text_lines ?t" "ascii ''Abc 12''"]
  from ts have lines: "text_lines ?t
      = [ascii ''Ab 1'', ascii ''tested for X'', ascii ''Abc 12'', ascii ''TEST RESULTS'']"
    by blast
  have k: "\<forall>l \<in> set (text_lines ?t). \<not> keyword_match U l"
    unfolding lines by (simp add: no_keyword_trigger_text)
  have p0: "\<not> trigger_pair U (text_lines ?t) 0" and p1: "\<not> trigger_pair U (text_lines ?t) 1"
    and p2: "\<not> trigger_pair U (text_lines ?t) 2" and p3: "trigger_pair U (text_lines ?t) 3"
    unfolding lines by (rule pairs_trigger_text)+
  have f: "\<forall>j < 3. \<not> trigger_pair U (text_lines ?t) j"
  proof (intro allI impI)
    fix j :: nat
    assume "j < 3"
    then have "j = 0 \<or> j = 1 \<or> j = 2" by linarith
    with p0 p1 p2 show "\<not> trigger_pair U (text_lines ?t) j" by blast
  qed
  from ts k p3 f have "extract_product_name U ?t = Inr (Some (text_lines ?t ! (3 - 1)))"
    by blast
  then have e: "extract_product_name U ?t = Inr (Some (ascii ''Abc 12''))"
    unfolding lines by simp
  from no_keyword_trigger_text [of U] trigger_phrase_before_short [of U] p1 p2 p3 e
  show "\<not> keyword_match U (ascii ''Ab 1'') \<and> \<not> keyword_match U (ascii ''tested for X'')
      \<and> \<not> keyword_match U (ascii ''Abc 12'') \<and> \<not> keyword_match U (ascii ''TEST RESULTS'')
      \<and> contains_any trigger_phrases (py_lower U (ascii ''tested for X''))
      \<and> \<not> trigger_pair U (text_lines ?t) 1
      \<and> \<not> trigger_pair U (text_lines ?t) 2
      \<and> trigger_pair U (text_lines ?t) 3
      \<and> extract_product_name U ?t = Inr (Some (ascii ''Abc 12''))"
    by blast
qed

text \<open>
  C6: when Strategies 1 and 2 give nothing, the result is the first line that holds
  \<open>by\<close> or \<open>from\<close> as a whole word, in any letter case, and whose length is strictly
  between 5 and 100 (and Strategy 4 decides when there is no such line). The search of
  the code is the whole-word condition; a letter of the pattern matches itself and its
  capital, and the ASCII word characters are the digits, the letters and the underscore,
  so \<open>BY\<close> and \<open>From\<close> match while \<open>a_by_b\<close> and \<open>3by4 xx\<close> do not.
  \<open>Bystander Corp Products\<close> does not match Strategy 3; \<open>Night Repair by Luna\<close> is
  returned in full. In the three-line text of the last clauses \<open>By me\<close> matches but has
  exactly 5 characters, and the padded \<open>Night Repair BY Luna\<close> is returned trimmed,
  before \<open>Gift from Paris\<close>.
\<close>

theorem attribution_strategy:
  "((\<forall>l \<in> set (text_lines text). \<not> keyword_match U l)
      \<and> (\<forall>i. \<not> trigger_pair U (text_lines text) i)
      \<longrightarrow> extract_product_name U text
          = (case find (attribution_match U) (text_lines text) of
               Some l \<Rightarrow> Inr (Some l)
             | None \<Rightarrow> Inr (find (fallback_match U) (text_lines text))))
   \<and> attribution_loop U lines = find (attribution_match U) lines
   \<and> (find (attribution_match U) lines = Some l
      \<longrightarrow> (\<exists>pre post. lines = pre @ l # post \<and> attribution_match U l
            \<and> (\<forall>x \<in> set pre. \<not> attribution_match U x)))
   \<and> (re_search_by_from U line
      \<longleftrightarrow> whole_word U (ascii ''by'') line \<or> whole_word U (ascii ''from'') line)
   \<and> \<not> re_search_by_from U (ascii ''Bystander Corp Products'')
   \<and> attribution_loop U (text_lines (ascii ''Bystander Corp Products'')) = None
   \<and> attribution_loop U (text_lines (ascii ''Night Repair by Luna''))
        = Some (ascii ''Night Repair by Luna'')
   \<and> extract_product_name U (ascii ''Night Repair by Luna'')
        = Inr (Some (ascii ''Night Repair by Luna''))
   \<and> (attribution_match U line
      \<longleftrightarrow> re_search_by_from U line \<and> 5 < length line \<and> length line < 100)
   \<and> (p \<in> set (ascii ''byfrom'') \<longrightarrow> (ignorecase_eq p c \<longleftrightarrow> c = p \<or> c + 32 = p))
   \<and> (c < 128 \<longrightarrow>
        (is_word U c \<longleftrightarrow> c \<in> set ([of_char CHR ''0''..<Suc (of_char CHR ''9'')]
           @ [of_char CHR ''A''..<Suc (of_char CHR ''Z'')]
           @ [of_char CHR ''a''..<Suc (of_char CHR ''z'')] @ ascii ''_'')))
   \<and> re_search_by_from U (ascii ''Night Repair BY Luna'')
   \<and> re_search_by_from U (ascii ''From X'')
   \<and> \<not> re_search_by_from U (ascii ''a_by_b'')
   \<and> \<not> re_search_by_from U (ascii ''3by4 xx'')
   \<and> text_lines (ascii ''By me\<newline>  Night Repair BY Luna  \<newline>Gift from Paris'')
        = [ascii ''By me'', ascii ''Night Repair BY Luna'', ascii ''Gift from Paris'']
   \<and> re_search_by_from U (ascii ''By me'')
   \<and> re_search_by_from U (ascii ''Gift from Paris'')
   \<and> extract_product_name U
          (ascii ''By me\<newline>  Night Repair BY Luna  \<newline>Gift from Paris'')
        = Inr (Some (ascii ''Night Repair BY Luna''))"
proof (intro conjI impI)
  assume h: "(\<forall>l \<in> set (text_lines text). \<not> keyword_match U l)
      \<and> (\<forall>i. \<not> trigger_pair U (text_lines text) i)"
  then have k: "find (keyword_match U) (text_lines text) = None"
    by (simp add: no_keyword_find)
  from h have t: "find (trigger_pair U (text_lines text)) [0..<length (text_lines text)] = None"
    by (simp add: no_trigger_find)
  show "extract_product_name U text
      = (case find (attribution_match U) (text_lines text) of
           Some l \<Rightarrow> Inr (Some l)
         | None \<Rightarrow> Inr (find (fallback_match U) (text_lines text)))"
    unfolding extract_product_name_strategies by (simp add: Let_def k t)
next
  show "attribution_loop U lines = find (attribution_match U) lines"
    by (rule attribution_loop_find)
  show "\<exists>pre post. lines = pre @ l # post \<and> attribution_match U l
      \<and> (\<forall>x \<in> set pre. \<not> attribution_match U x)"
    if "find (attribution_match U) lines = Some l"
    using that by (rule find_first)
  show "re_search_by_from U line
      \<longleftrightarrow> whole_word U (ascii ''by'') line \<or> whole_word U (ascii ''from'') line"
    by (rule re_search_by_from_iff)
  show "\<not> re_search_by_from U (ascii ''Bystander Corp Products'')"
    by (rule no_search_bystander)
  show "attribution_loop U (text_lines (ascii ''Bystander Corp Products'')) = None"
    unfolding lines_bystander by (simp add: no_search_bystander)
  show "attribution_loop U (text_lines (ascii ''Night Repair by Luna''))
        = Some (ascii ''Night Repair by Luna'')"
    unfolding lines_night by (simp add: search_night) (simp add: ascii_def)
  show "extract_product_name U (ascii ''Night Repair by Luna'')
        = Inr (Some (ascii ''Night Repair by Luna''))"
    by (rule extract_night)
  show "attribution_match U line
      \<longleftrightarrow> re_search_by_from U line \<and> 5 < length line \<and> length line < 100"
    by (rule attribution_match_search)
  show "ignorecase_eq p c \<longleftrightarrow> c = p \<or> c + 32 = p" if "p \<in> set (ascii ''byfrom'')"
    using that by (rule ignorecase_letters)
  show "is_word U c \<longleftrightarrow> c \<in> set ([of_char CHR ''0''..<Suc (of_char CHR ''9'')]
           @ [of_char CHR ''A''..<Suc (of_char CHR ''Z'')]
           @ [of_char CHR ''a''..<Suc (of_char CHR ''z'')] @ ascii ''_'')"
    if "c < 128"
    using that by (rule is_word_ascii)
  show upper: "re_search_by_from U (ascii ''Night Repair BY Luna'')"
    by (simp add: search_eval)
  show "re_search_by_from U (ascii ''From X'')" by (simp add: search_eval)
  show "\<not> re_search_by_from U (ascii ''a_by_b'')" by (simp add: search_eval)
  show "\<not> re_search_by_from U (ascii ''3by4 xx'')" by (simp add: search_eval)
  show "text_lines (ascii ''By me\<newline>  Night Repair BY Luna  \<newline>Gift from Paris'')
        = [ascii ''By me'', ascii ''Night Repair BY Luna'', ascii ''Gift from Paris'']"
    by (simp add: line_eval)
  show "re_search_by_from U (ascii ''By me'')" by (simp add: search_eval)
  show "re_search_by_from U (ascii ''Gift from Paris'')" by (simp add: search_eval)
  let ?ls = "[ascii ''By me'', ascii ''Night Repair BY Luna'', ascii ''Gift from Paris'']"
  have k: "find (keyword_match U) ?ls = None"
    by (simp add: no_keyword_attribution_text)
  have "\<forall>i. \<not> trigger_pair U ?ls i"
    by (intro allI no_trigger_phrase) (simp add: no_trigger_attribution_text)
  then have t: "find (trigger_pair U ?ls) [0..<length ?ls] = None" by (rule no_trigger_find)
  have "\<not> attribution_match U (ascii ''By me'')"
    by (simp add: attribution_match_search ascii_def)
  moreover have "attribution_match U (ascii ''Night Repair BY Luna'')"
    unfolding attribution_match_search using upper by (simp add: ascii_def)
  ultimately have a: "find (attribution_match U) ?ls = Some (ascii ''Night Repair BY Luna'')"
    by simp
  show "extract_product_name U
          (ascii ''By me\<newline>  Night Repair BY Luna  \<newline>Gift from Paris'')
        = Inr (Some (ascii ''Night Repair BY Luna''))"
    unfolding extract_product_name_strategies lines_attribution_text Let_def k t a by simp
qed

theorem attribution_strategy_witness:
  "\<forall>U. \<not> keyword_match U (ascii ''By me'')
      \<and> \<not> keyword_match U (ascii ''Night Repair BY Luna'')
      \<and> \<not> keyword_match U (ascii ''Gift from Paris'')
      \<and> (\<forall>i. \<not> trigger_pair U
            (text_lines (ascii ''By me\<newline>  Night Repair BY Luna  \<newline>Gift from Paris'')) i)
      \<and> \<not> attribution_match U (ascii ''By me'')
      \<and> attribution_match U (ascii ''Night Repair BY Luna'')
      \<and> attribution_match U (ascii ''Gift from Paris'')
      \<and> (whole_word U (ascii ''by'') (ascii ''Night Repair BY Luna'')
          \<or> whole_word U (ascii ''from'') (ascii ''Night Repair BY Luna''))
      \<and> ignorecase_eq (of_char CHR ''b'') (of_char CHR ''B'')
      \<and> \<not> is_word U (of_char CHR '' '') \<and> is_word U (of_char CHR ''_'')
      \<and> find (attribution_match U)
          (text_lines (ascii ''By me\<newline>  Night Repair BY Luna  \<newline>Gift from Paris''))
          = Some (ascii ''Night Repair BY Luna'')
      \<and> extract_product_name U
          (ascii ''By me\<newline>  Night Repair BY Luna  \<newline>Gift from Paris'')
          = Inr (Some (ascii ''Night Repair BY Luna''))"
proof
  fix U
  let ?t = "ascii ''By me\<newline>  Night Repair BY Luna  \<newline>Gift from Paris''"
  let ?m = "ascii ''By me''" and ?n = "ascii ''Night Repair BY Luna''"
  let ?g = "ascii ''Gift from Paris''"
  note tn = attribution_strategy [of ?t U "text_lines ?t" ?n ?n]
  note tm = attribution_strategy [of ?t U "text_lines ?t" ?n ?m]
  note tg = attribution_strategy [of ?t U "text_lines ?t" ?n ?g]
  from tn have lines: "text_lines ?t = [?m, ?n, ?g]" by blast
  note k = no_keyword_attribution_text [of U]
  have t: "\<forall>i. \<not> trigger_pair U (text_lines ?t) i"
    unfolding lines by (intro allI no_trigger_phrase) (simp add: no_trigger_attribution_text)
  from tm have "attribution_match U ?m
      \<longleftrightarrow> re_search_by_from U ?m \<and> 5 < length ?m \<and> length ?m < 100" by blast
  then have am: "\<not> attribution_match U ?m" by (simp add: ascii_def)
  from tn have "attribution_match U ?n
      \<longleftrightarrow> re_search_by_from U ?n \<and> 5 < length ?n \<and> length ?n < 100"
    and sn: "re_search_by_from U ?n" by blast+
  then have an: "attribution_match U ?n" by (simp add: ascii_def)
  from tg have "attribution_match U ?g
      \<longleftrightarrow> re_search_by_from U ?g \<and> 5 < length ?g \<and> length ?g < 100"
    and "re_search_by_from U ?g" by blast+
  then have ag: "attribution_match U ?g" by (simp add: ascii_def)
  from tn sn have ww: "whole_word U (ascii ''by'') ?n \<or> whole_word U (ascii ''from'') ?n"
    by blast
  from attribution_strategy [of ?t U "text_lines ?t" ?n ?n "of_char CHR ''b''" "of_char CHR ''B''"]
  have "of_char CHR ''b'' \<in> set (ascii ''byfrom'')
      \<longrightarrow> (ignorecase_eq (of_char CHR ''b'') (of_char CHR ''B'')
        \<longleftrightarrow> (of_char CHR ''B'' :: nat) = of_char CHR ''b''
          \<or> (of_char CHR ''B'' :: nat) + 32 = of_char CHR ''b'')"
    by blast
  then have ic: "ignorecase_eq (of_char CHR ''b'') (of_char CHR ''B'')"
    by (simp add: ascii_def)
  from attribution_strategy [of ?t U "text_lines ?t" ?n ?n _ "of_char CHR '' ''"]
  have ws: "\<not> is_word U (of_char CHR '' '')" by (simp add: ascii_def)
  from attribution_strategy [of ?t U "text_lines ?t" ?n ?n _ "of_char CHR ''_''"]
  have wu: "is_word U (of_char CHR ''_'')" by (simp add: ascii_def)
  from k have "\<forall>l \<in> set (text_lines ?t). \<not> keyword_match U l" unfolding lines by simp
  with t tn have e: "extract_product_name U ?t
      = (case find (attribution_match U) (text_lines ?t) of
           Some l \<Rightarrow> Inr (Some l)
         | None \<Rightarrow> Inr (find (fallback_match U) (text_lines ?t)))"
    by blast
  from am an have f: "find (attribution_match U) (text_lines ?t) = Some ?n"
    unfolding lines by simp
  with e have r: "extract_product_name U ?t = Inr (Some ?n)" by simp
  from k t am an ag ww ic ws wu f r
  show "\<not> keyword_match U ?m \<and> \<not> keyword_match U ?n \<and> \<not> keyword_match U ?g
      \<and> (\<forall>i. \<not> trigger_pair U (text_lines ?t) i)
      \<and> \<not> attribution_match U ?m
      \<and> attribution_match U ?n
      \<and> attribution_match U ?g
      \<and> (whole_word U (ascii ''by'') ?n \<or> whole_word U (ascii ''from'') ?n)
      \<and> ignorecase_eq (of_char CHR ''b'') (of_char CHR ''B'')
      \<and> \<not> is_word U (of_char CHR '' '') \<and> is_word U (of_char CHR ''_'')
      \<and> find (attribution_match U) (text_lines ?t) = Some ?n
      \<and> extract_product_name U ?t = Inr (Some ?n)"
    by blast
qed

lemma find_in_set: "find P xs = Some x \<Longrightarrow> x \<in> set xs"
  by (induction xs) (auto split: if_splits)

lemma find_holds: "find P xs = Some x \<Longrightarrow> P x"
  by (induction xs) (auto split: if_splits)

lemma extract_result_is_line:
  "extract_product_name U text = Inr None
   \<or> (\<exists>l. l \<in> set (text_lines text) \<and> extract_product_name U text = Inr (Some l))"
proof -
  let ?ls = "text_lines text"
  show ?thesis
  proof (cases "find (keyword_match U) ?ls")
    case (Some l)
    then have "l \<in> set ?ls" by (rule find_in_set)
    moreover from Some have "extract_product_name U text = Inr (Some l)"
      unfolding extract_product_name_strategies by (simp add: Let_def)
    ultimately show ?thesis by blast
  next
    case k: None
    show ?thesis
    proof (cases "find (trigger_pair U ?ls) [0..<length ?ls]")
      case (Some i)
      then have "trigger_pair U ?ls i" by (rule find_holds)
      then have "i - 1 < length ?ls" by (auto simp: trigger_pair_def)
      then have "?ls ! (i - 1) \<in> set ?ls" by (rule nth_mem)
      moreover from k Some have "extract_product_name U text = Inr (Some (?ls ! (i - 1)))"
        unfolding extract_product_name_strategies by (simp add: Let_def)
      ultimately show ?thesis by blast
    next
      case t: None
      show ?thesis
      proof (cases "find (attribution_match U) ?ls")
        case (Some l)
        then have "l \<in> set ?ls" by (rule find_in_set)
        moreover from k t Some have "extract_product_name U text = Inr (Some l)"
          unfolding extract_product_name_strategies by (simp add: Let_def)
        ultimately show ?thesis by blast
      next
        case a: None
        from k t a have e: "extract_product_name U text = Inr (find (fallback_match U) ?ls)"
          unfolding extract_product_name_strategies by (simp add: Let_def)
        show ?thesis
        proof (cases "find (fallback_match U) ?ls")
          case None
          with e show ?thesis by simp
        next
          case (Some l)
          then have "l \<in> set ?ls" by (rule find_in_set)
          with e Some show ?thesis by auto
        qed
      qed
    qed
  qed
qed

text \<open>
  C7: on every string \<open>extract_product_name\<close> returns, without an exception: the result
  is \<open>None\<close> or one of the lines. The read of \<open>lines[i-1]\<close> happens only for
  \<open>0 < i < len(lines)\<close>, where it is in range, so the loop of Strategy 2 never raises.
  The empty string and \<open>"   \n\n  "\<close> give \<open>None\<close>.
\<close>

theorem extract_never_raises:
  "(\<exists>r. extract_product_name U text = Inr r)
   \<and> (extract_product_name U text = Inr None
      \<or> (\<exists>l. l \<in> set (text_lines text) \<and> extract_product_name U text = Inr (Some l)))
   \<and> (\<exists>r. trigger_loop U lines (enumerate 0 lines) = Inr r)
   \<and> (0 < i \<and> i < length lines \<longrightarrow> getitem lines (int i - 1) = Inr (lines ! (i - 1)))
   \<and> extract_product_name U (ascii '''') = Inr None
   \<and> extract_product_name U (ascii ''   \<newline>\<newline>  '') = Inr None"
proof (intro conjI impI)
  show r: "extract_product_name U text = Inr None
      \<or> (\<exists>l. l \<in> set (text_lines text) \<and> extract_product_name U text = Inr (Some l))"
    by (rule extract_result_is_line)
  then show "\<exists>r. extract_product_name U text = Inr r" by blast
  show "\<exists>r. trigger_loop U lines (enumerate 0 lines) = Inr r"
    using trigger_loop_find [of 0 lines U] by simp
  show "getitem lines (int i - 1) = Inr (lines ! (i - 1))" if "0 < i \<and> i < length lines"
    using that by (simp add: getitem_prev)
  show "extract_product_name U (ascii '''') = Inr None" by (rule extract_empty)
  show "extract_product_name U (ascii ''   \<newline>\<newline>  '') = Inr None" by (rule extract_blank)
qed

theorem extract_never_raises_witness:
  "\<forall>U. extract_product_name U (ascii ''   \<newline>\<newline>  '') = Inr None
      \<and> getitem [ascii ''Sample 42 XYZ'', ascii ''was evaluated in lab''] (int 1 - 1)
          = Inr (ascii ''Sample 42 XYZ'')"
proof
  fix U
  note enr = extract_never_raises [of U "ascii ''''"
      "[ascii ''Sample 42 XYZ'', ascii ''was evaluated in lab'']" 1]
  from enr have "extract_product_name U (ascii ''   \<newline>\<newline>  '') = Inr None" by blast
  moreover from enr
  have "getitem [ascii ''Sample 42 XYZ'', ascii ''was evaluated in lab''] (int 1 - 1)
      = Inr ([ascii ''Sample 42 XYZ'', ascii ''was evaluated in lab''] ! (1 - 1))"
    by simp
  then have "getitem [ascii ''Sample 42 XYZ'', ascii ''was evaluated in lab''] (int 1 - 1)
      = Inr (ascii ''Sample 42 XYZ'')"
    by simp
  ultimately
  show "extract_product_name U (ascii ''   \<newline>\<newline>  '') = Inr None
      \<and> getitem [ascii ''Sample 42 XYZ'', ascii ''was evaluated in lab''] (int 1 - 1)
          = Inr (ascii ''Sample 42 XYZ'')"
    by blast
qed

text \<open>
  C9: when Strategies 1, 2 and 3 give nothing, the result is the first line whose length
  is strictly between 10 and 100 and whose lower-case form contains none of \<open>report\<close>,
  \<open>test\<close>, \<open>analysis\<close>, \<open>certificate\<close>; when no strategy gives a line the result is
  \<open>None\<close>. In the four-line text of the closing clauses \<open>Lab REPORT 2024\<close> is a header
  through its capitals, \<open>Short line\<close> has exactly 10 characters, and the padded
  \<open>Plain Product Label\<close> is returned trimmed, before \<open>Another Plain Label\<close>; the
  three-line text has no line for any strategy.
\<close>

theorem fallback_strategy:
  "set headers = ascii ` {''report'', ''test'', ''analysis'', ''certificate''}
   \<and> ((\<forall>l \<in> set (text_lines text). \<not> keyword_match U l \<and> \<not> attribution_match U l)
        \<and> (\<forall>i. \<not> trigger_pair U (text_lines text) i)
      \<longrightarrow> extract_product_name U text = Inr (find (fallback_match U) (text_lines text)))
   \<and> fallback_loop U lines = find (fallback_match U) lines
   \<and> (find (fallback_match U) lines = Some l
      \<longrightarrow> (\<exists>pre post. lines = pre @ l # post \<and> fallback_match U l
            \<and> (\<forall>x \<in> set pre. \<not> fallback_match U x)))
   \<and> ((\<forall>l \<in> set (text_lines text).
          \<not> keyword_match U l \<and> \<not> attribution_match U l \<and> \<not> fallback_match U l)
        \<and> (\<forall>i. \<not> trigger_pair U (text_lines text) i)
      \<longrightarrow> extract_product_name U text = Inr None)
   \<and> (fallback_match U line
      \<longleftrightarrow> 10 < length line \<and> length line < 100
        \<and> \<not> (\<exists>h \<in> set headers. sublist h (py_lower U line)))
   \<and> (t \<in> set (text_lines text) \<longrightarrow> t \<noteq> [] \<and> \<not> isspace (hd t) \<and> \<not> isspace (last t))
   \<and> text_lines (ascii (''  Lab REPORT 2024 \<newline> Short line\<newline>\<newline>''
          @ ''  Plain Product Label  \<newline>Another Plain Label''))
        = [ascii ''Lab REPORT 2024'', ascii ''Short line'', ascii ''Plain Product Label'',
           ascii ''Another Plain Label'']
   \<and> extract_product_name U (ascii (''  Lab REPORT 2024 \<newline> Short line\<newline>\<newline>''
          @ ''  Plain Product Label  \<newline>Another Plain Label''))
        = Inr (Some (ascii ''Plain Product Label''))
   \<and> text_lines (ascii ''Lab REPORT 2024\<newline>TEST\<newline>Short line'')
        = [ascii ''Lab REPORT 2024'', ascii ''TEST'', ascii ''Short line'']
   \<and> extract_product_name U (ascii ''Lab REPORT 2024\<newline>TEST\<newline>Short line'') = Inr None"
proof (intro conjI impI)
  show "set headers = ascii ` {''report'', ''test'', ''analysis'', ''certificate''}"
    unfolding headers_def by (simp only: set_map set_simps)
  show "fallback_loop U lines = find (fallback_match U) lines" by (rule fallback_loop_find)
  show "\<exists>pre post. lines = pre @ l # post \<and> fallback_match U l
      \<and> (\<forall>x \<in> set pre. \<not> fallback_match U x)"
    if "find (fallback_match U) lines = Some l"
    using that by (rule find_first)
  show "extract_product_name U text = Inr (find (fallback_match U) (text_lines text))"
    if h: "(\<forall>l \<in> set (text_lines text). \<not> keyword_match U l \<and> \<not> attribution_match U l)
        \<and> (\<forall>i. \<not> trigger_pair U (text_lines text) i)"
  proof -
    from h have "find (keyword_match U) (text_lines text) = None"
      and "find (trigger_pair U (text_lines text)) [0..<length (text_lines text)] = None"
      and "find (attribution_match U) (text_lines text) = None"
      by (simp_all add: find_None_iff)
    then show ?thesis unfolding extract_product_name_strategies by (simp add: Let_def)
  qed
  show "extract_product_name U text = Inr None"
    if h: "(\<forall>l \<in> set (text_lines text).
          \<not> keyword_match U l \<and> \<not> attribution_match U l \<and> \<not> fallback_match U l)
        \<and> (\<forall>i. \<not> trigger_pair U (text_lines text) i)"
  proof -
    from h have "find (keyword_match U) (text_lines text) = None"
      and "find (trigger_pair U (text_lines text)) [0..<length (text_lines text)] = None"
      and "find (attribution_match U) (text_lines text) = None"
      and "find (fallback_match U) (text_lines text) = None"
      by (simp_all add: find_None_iff)
    then show ?thesis unfolding extract_product_name_strategies by (simp add: Let_def)
  qed
  show "fallback_match U line
      \<longleftrightarrow> 10 < length line \<and> length line < 100
        \<and> \<not> (\<exists>h \<in> set headers. sublist h (py_lower U line))"
    by (simp only: fallback_match_def contains_any_def)
  show "t \<noteq> []" "\<not> isspace (hd t)" "\<not> isspace (last t)" if "t \<in> set (text_lines text)"
    using text_lines_trimmed [OF that] by simp_all
  show "text_lines (ascii (''  Lab REPORT 2024 \<newline> Short line\<newline>\<newline>''
          @ ''  Plain Product Label  \<newline>Another Plain Label''))
        = [ascii ''Lab REPORT 2024'', ascii ''Short line'', ascii ''Plain Product Label'',
           ascii ''Another Plain Label'']"
    by (simp add: line_eval)
  show "text_lines (ascii ''Lab REPORT 2024\<newline>TEST\<newline>Short line'')
        = [ascii ''Lab REPORT 2024'', ascii ''TEST'', ascii ''Short line'']"
    by (simp add: line_eval)
  let ?a = "[ascii ''Lab REPORT 2024'', ascii ''Short line'', ascii ''Plain Product Label'',
      ascii ''Another Plain Label'']"
  have ka: "find (keyword_match U) ?a = None"
    by (simp add: no_keyword_fallback_text no_keyword_plain)
  have "\<forall>i. \<not> trigger_pair U ?a i"
    by (intro allI no_trigger_phrase) (simp add: no_trigger_fallback_text)
  then have ta: "find (trigger_pair U ?a) [0..<length ?a] = None" by (rule no_trigger_find)
  have aa: "find (attribution_match U) ?a = None"
    by (simp add: attribution_match_search no_search_fallback_text no_search_plain)
  have "\<not> fallback_match U (ascii ''Lab REPORT 2024'')"
    "\<not> fallback_match U (ascii ''Short line'')"
    "fallback_match U (ascii ''Plain Product Label'')"
    by (simp_all add: fallback_match_def phrase_eval)
  then have fa: "find (fallback_match U) ?a = Some (ascii ''Plain Product Label'')"
    by simp
  show "extract_product_name U (ascii (''  Lab REPORT 2024 \<newline> Short line\<newline>\<newline>''
          @ ''  Plain Product Label  \<newline>Another Plain Label''))
        = Inr (Some (ascii ''Plain Product Label''))"
    unfolding extract_product_name_strategies lines_fallback_text Let_def ka ta aa fa by simp
  let ?b = "[ascii ''Lab REPORT 2024'', ascii ''TEST'', ascii ''Short line'']"
  have kb: "find (keyword_match U) ?b = None" by (simp add: no_keyword_fallback_text)
  have "\<forall>i. \<not> trigger_pair U ?b i"
    by (intro allI no_trigger_phrase) (simp add: no_trigger_fallback_text)
  then have tb: "find (trigger_pair U ?b) [0..<length ?b] = None" by (rule no_trigger_find)
  have ab: "find (attribution_match U) ?b = None"
    by (simp add: attribution_match_search no_search_fallback_text)
  have fb: "find (fallback_match U) ?b = None" by (simp add: fallback_fallback_text)
  show "extract_product_name U (ascii ''Lab REPORT 2024\<newline>TEST\<newline>Short line'') = Inr None"
    unfolding extract_product_name_strategies lines_none_text Let_def kb tb ab fb by simp
qed

theorem fallback_strategy_witness:
  "\<forall>U. \<not> fallback_match U (ascii ''Lab REPORT 2024'')
      \<and> \<not> fallback_match U (ascii ''Short line'')
      \<and> fallback_match U (ascii ''Plain Product Label'')
      \<and> find (fallback_match U)
          (text_lines (ascii (''  Lab REPORT 2024 \<newline> Short line\<newline>\<newline>''
             @ ''  Plain Product Label  \<newline>Another Plain Label'')))
          = Some (ascii ''Plain Product Label'')
      \<and> (\<forall>i. \<not> trigger_pair U
            (text_lines (ascii (''  Lab REPORT 2024 \<newline> Short line\<newline>\<newline>''
               @ ''  Plain Product Label  \<newline>Another Plain Label''))) i)
      \<and> extract_product_name U (ascii (''  Lab REPORT 2024 \<newline> Short line\<newline>\<newline>''
             @ ''  Plain Product Label  \<newline>Another Plain Label''))
          = Inr (Some (ascii ''Plain Product Label''))
      \<and> \<not> fallback_match U (ascii ''TEST'')
      \<and> extract_product_name U (ascii ''Lab REPORT 2024\<newline>TEST\<newline>Short line'')
          = Inr None"
proof
  fix U
  let ?t = "ascii (''  Lab REPORT 2024 \<newline> Short line\<newline>\<newline>''
      @ ''  Plain Product Label  \<newline>Another Plain Label'')"
  let ?n = "ascii ''Lab REPORT 2024\<newline>TEST\<newline>Short line''"
  let ?p = "ascii ''Plain Product Label''"
  note ft = fallback_strategy [of ?t U "text_lines ?t" ?p]
  note fn = fallback_strategy [of ?n U "text_lines ?n" ?p]
  from ft have lt: "text_lines ?t
      = [ascii ''Lab REPORT 2024'', ascii ''Short line'', ?p, ascii ''Another Plain Label'']"
    by blast
  from fn have ln: "text_lines ?n
      = [ascii ''Lab REPORT 2024'', ascii ''TEST'', ascii ''Short line'']"
    by blast
  note nf = fallback_fallback_text [of U]
  have fp: "fallback_match U ?p" by (rule fallback_plain)
  have ht: "\<forall>l \<in> set (text_lines ?t). \<not> keyword_match U l \<and> \<not> attribution_match U l"
    unfolding lt
    by (simp add: no_keyword_fallback_text no_keyword_plain attribution_match_search
        no_search_fallback_text no_search_plain)
  have tt: "\<forall>i. \<not> trigger_pair U (text_lines ?t) i"
    unfolding lt by (intro allI no_trigger_phrase) (simp add: no_trigger_fallback_text)
  from ft ht tt
  have et: "extract_product_name U ?t = Inr (find (fallback_match U) (text_lines ?t))"
    by blast
  from nf fp have f: "find (fallback_match U) (text_lines ?t) = Some ?p"
    unfolding lt by simp
  with et have rt: "extract_product_name U ?t = Inr (Some ?p)" by simp
  have hn: "\<forall>l \<in> set (text_lines ?n).
      \<not> keyword_match U l \<and> \<not> attribution_match U l \<and> \<not> fallback_match U l"
    unfolding ln
    by (simp add: no_keyword_fallback_text attribution_match_search no_search_fallback_text nf)
  have tn: "\<forall>i. \<not> trigger_pair U (text_lines ?n) i"
    unfolding ln by (intro allI no_trigger_phrase) (simp add: no_trigger_fallback_text)
  from fn hn tn have rn: "extract_product_name U ?n = Inr None" by blast
  from nf fp f tt rt rn
  show "\<not> fallback_match U (ascii ''Lab REPORT 2024'')
      \<and> \<not> fallback_match U (ascii ''Short line'')
      \<and> fallback_match U ?p
      \<and> find (fallback_match U) (text_lines ?t) = Some ?p
      \<and> (\<forall>i. \<not> trigger_pair U (text_lines ?t) i)
      \<and> extract_product_name U ?t = Inr (Some ?p)
      \<and> \<not> fallback_match U (ascii ''TEST'')
      \<and> extract_product_name U ?n = Inr None"
    by blast
qed

subsection \<open>An excluded line can still be the result\<close>

text \<open>
  Strategy 1 skips \<open>Serum Ingredients Description\<close>, but nothing keeps Strategy 4 from
  returning the same line: it is longer than 10 and holds none of the four header words.
\<close>

lemma lines_serum_only:
  "text_lines (ascii ''Serum Ingredients Description'')
     = [ascii ''Serum Ingredients Description'']"
  by (simp add: line_eval)

lemma no_search_serum: "\<not> re_search_by_from U (ascii ''Serum Ingredients Description'')"
  by (simp add: search_eval)

lemma fallback_serum: "fallback_match U (ascii ''Serum Ingredients Description'')"
  by (simp add: fallback_match_def phrase_eval)

lemma excluded_line_returned_by_fallback:
  "extract_product_name U (ascii ''Serum Ingredients Description'')
     = Inr (Some (ascii ''Serum Ingredients Description''))"
proof -
  have "\<not> keyword_match U (ascii ''Serum Ingredients Description'')"
    using excluded_serum [of U] by (simp add: keyword_match_def)
  moreover have "\<not> attribution_match U (ascii ''Serum Ingredients Description'')"
    by (simp add: attribution_match_def re_search_by_from_iff [symmetric] no_search_serum)
  ultimately show ?thesis
    unfolding extract_product_name_strategies lines_serum_only
    by (simp add: no_trigger_single fallback_serum)
qed

end
